theory Spec2Isabelle
  imports Main "HOL-Library.Word" "HOL-Library.AList"
begin

text \<open>
  A model of the visit log of mrt-photolog: the store of visits kept by the \<open>App\<close>
  component (\<open>visitMap\<close>), its copy in \<open>localStorage\<close>, the draft under edit
  (\<open>tempVisit\<close>) and the asynchronous steps that write to the draft: reading the chosen
  image, uploading it, and asking for a caption. Definitions come first, then the properties.
\<close>

section \<open>Strings and JSON text\<close>

text \<open>
  A JavaScript string is a sequence of 16-bit code units. \<open>js\<close> turns an ASCII literal
  into such a string.
\<close>

type_synonym jsstring = "16 word list"

definition js :: "string \<Rightarrow> jsstring" where
  "js s = map of_char s"

text \<open>
  \<open>JSON.stringify\<close> quotes a string as the ECMAScript operation QuoteJSONString does: the
  short escapes for backspace, tab, line feed, form feed, carriage return, the quote and the
  backslash, \<open>\uXXXX\<close> (lower-case hexadecimal) for the other code units below 0x20
  and for a surrogate that is not part of a pair, and every other code unit as it is.
\<close>

definition hexdigit :: "nat \<Rightarrow> 16 word" where
  "hexdigit n = (if n < 10 then of_nat (48 + n) else of_nat (87 + n))"

definition hex4 :: "16 word \<Rightarrow> jsstring" where
  "hex4 c = (let n = unat c in
     [hexdigit (n div 4096), hexdigit (n div 256 mod 16), hexdigit (n div 16 mod 16), hexdigit (n mod 16)])"

definition UnicodeEscape :: "16 word \<Rightarrow> jsstring" where
  "UnicodeEscape c = [0x5C, 0x75] @ hex4 c"

definition is_high_surrogate :: "16 word \<Rightarrow> bool" where
  "is_high_surrogate c = (0xD800 \<le> c \<and> c \<le> 0xDBFF)"

definition is_low_surrogate :: "16 word \<Rightarrow> bool" where
  "is_low_surrogate c = (0xDC00 \<le> c \<and> c \<le> 0xDFFF)"

definition escape_unit :: "16 word \<Rightarrow> jsstring" where
  "escape_unit c =
     (if c = 0x08 then [0x5C, 0x62]
      else if c = 0x09 then [0x5C, 0x74]
      else if c = 0x0A then [0x5C, 0x6E]
      else if c = 0x0C then [0x5C, 0x66]
      else if c = 0x0D then [0x5C, 0x72]
      else if c = 0x22 then [0x5C, 0x22]
      else if c = 0x5C then [0x5C, 0x5C]
      else if c < 0x20 \<or> is_high_surrogate c \<or> is_low_surrogate c then UnicodeEscape c
      else [c])"

fun quote_body :: "jsstring \<Rightarrow> jsstring" where
  "quote_body [] = []"
| "quote_body [c] = escape_unit c"
| "quote_body (c # d # cs) =
     (if is_high_surrogate c \<and> is_low_surrogate d then c # d # quote_body cs
      else escape_unit c @ quote_body (d # cs))"

definition QuoteJSONString :: "jsstring \<Rightarrow> jsstring" where
  "QuoteJSONString s = 0x22 # quote_body s @ [0x22]"

text \<open>
  \<open>JSON.parse\<close> reads the JSON grammar: white space is space, tab, line feed and carriage
  return; a string holds any code unit from 0x20 on except the quote and the backslash, and the
  escapes \<open>\" \\ \/ \b \f \n \r \t \uXXXX\<close>; a number is kept as its lexeme; a member
  that repeats a name replaces the value of the earlier one. The three mutually recursive
  functions take fuel; \<open>JSON_parse\<close> gives them twice the length of the text, and a
  text that is not JSON is the error \<open>SyntaxError\<close> that \<open>JSON.parse\<close> throws.
\<close>

definition hexval :: "16 word \<Rightarrow> nat option" where
  "hexval c = (if 0x30 \<le> c \<and> c \<le> 0x39 then Some (unat c - 48)
     else if 0x61 \<le> c \<and> c \<le> 0x66 then Some (unat c - 87)
     else if 0x41 \<le> c \<and> c \<le> 0x46 then Some (unat c - 55)
     else None)"

definition parse_hex4 :: "16 word \<Rightarrow> 16 word \<Rightarrow> 16 word \<Rightarrow> 16 word \<Rightarrow> 16 word option" where
  "parse_hex4 a b c d =
     (case (hexval a, hexval b, hexval c, hexval d) of
        (Some x, Some y, Some z, Some w) \<Rightarrow> Some (of_nat (x * 4096 + y * 256 + z * 16 + w))
      | _ \<Rightarrow> None)"

definition unescape :: "16 word \<Rightarrow> 16 word option" where
  "unescape e =
     (if e = 0x22 then Some 0x22
      else if e = 0x5C then Some 0x5C
      else if e = 0x2F then Some 0x2F
      else if e = 0x62 then Some 0x08
      else if e = 0x66 then Some 0x0C
      else if e = 0x6E then Some 0x0A
      else if e = 0x72 then Some 0x0D
      else if e = 0x74 then Some 0x09
      else None)"

fun parse_chars :: "jsstring \<Rightarrow> (jsstring \<times> jsstring) option" where
  "parse_chars [] = None"
| "parse_chars (c # cs) =
    (if c = 0x22 then Some ([], cs)
     else if c = 0x5C then
       (case cs of
          [] \<Rightarrow> None
        | e # es \<Rightarrow>
            if e = 0x75 then
              (case es of
                 h1 # h2 # h3 # h4 # r \<Rightarrow>
                   (case parse_hex4 h1 h2 h3 h4 of
                      None \<Rightarrow> None
                    | Some u \<Rightarrow> map_option (apfst ((#) u)) (parse_chars r))
               | _ \<Rightarrow> None)
            else
              (case unescape e of
                 None \<Rightarrow> None
               | Some u \<Rightarrow> map_option (apfst ((#) u)) (parse_chars es)))
     else if c < 0x20 then None
     else map_option (apfst ((#) c)) (parse_chars cs))"

datatype json =
    JNull
  | JBool bool
  | JNum jsstring
  | JStr jsstring
  | JArr "json list"
  | JObj "(jsstring \<times> json) list"

definition is_ws :: "16 word \<Rightarrow> bool" where
  "is_ws c = (c = 0x20 \<or> c = 0x09 \<or> c = 0x0A \<or> c = 0x0D)"

definition skip_ws :: "jsstring \<Rightarrow> jsstring" where
  "skip_ws s = dropWhile is_ws s"

definition is_digit :: "16 word \<Rightarrow> bool" where
  "is_digit c = (0x30 \<le> c \<and> c \<le> 0x39)"

definition lex_int :: "jsstring \<Rightarrow> (jsstring \<times> jsstring) option" where
  "lex_int s =
     (case s of
        [] \<Rightarrow> None
      | c # cs \<Rightarrow>
          if c = 0x30 then Some ([c], cs)
          else if is_digit c then Some (c # takeWhile is_digit cs, dropWhile is_digit cs)
          else None)"

definition lex_frac :: "jsstring \<Rightarrow> (jsstring \<times> jsstring) option" where
  "lex_frac s =
     (case s of
        [] \<Rightarrow> Some ([], s)
      | c # cs \<Rightarrow>
          if c = 0x2E then
            (if takeWhile is_digit cs = [] then None
             else Some (c # takeWhile is_digit cs, dropWhile is_digit cs))
          else Some ([], s))"

definition lex_sign :: "jsstring \<Rightarrow> jsstring \<times> jsstring" where
  "lex_sign s =
     (case s of
        [] \<Rightarrow> ([], s)
      | d # ds \<Rightarrow> if d = 0x2B \<or> d = 0x2D then ([d], ds) else ([], s))"

definition lex_exp :: "jsstring \<Rightarrow> (jsstring \<times> jsstring) option" where
  "lex_exp s =
     (case s of
        [] \<Rightarrow> Some ([], s)
      | c # cs \<Rightarrow>
          if c = 0x65 \<or> c = 0x45 then
            (case lex_sign cs of
               (sg, r) \<Rightarrow>
                 if takeWhile is_digit r = [] then None
                 else Some (c # sg @ takeWhile is_digit r, dropWhile is_digit r))
          else Some ([], s))"

definition lex_minus :: "jsstring \<Rightarrow> jsstring \<times> jsstring" where
  "lex_minus s =
     (case s of
        [] \<Rightarrow> ([], s)
      | c # cs \<Rightarrow> if c = 0x2D then ([c], cs) else ([], s))"

definition parse_number :: "jsstring \<Rightarrow> (jsstring \<times> jsstring) option" where
  "parse_number s =
     (case lex_minus s of
        (m, s1) \<Rightarrow>
          (case lex_int s1 of
             None \<Rightarrow> None
           | Some (i, s2) \<Rightarrow>
               (case lex_frac s2 of
                  None \<Rightarrow> None
                | Some (f, s3) \<Rightarrow>
                    (case lex_exp s3 of
                       None \<Rightarrow> None
                     | Some (e, s4) \<Rightarrow> Some (m @ i @ f @ e, s4)))))"

definition lex_literal :: "jsstring \<Rightarrow> jsstring \<Rightarrow> jsstring option" where
  "lex_literal w s = (if take (length w) s = w then Some (drop (length w) s) else None)"

definition define_members :: "(jsstring \<times> json) list \<Rightarrow> (jsstring \<times> json) list" where
  "define_members ms = foldl (\<lambda>acc (k, v). AList.update k v acc) [] ms"

fun parse_value :: "nat \<Rightarrow> jsstring \<Rightarrow> (json \<times> jsstring) option"
  and parse_elements :: "nat \<Rightarrow> jsstring \<Rightarrow> (json list \<times> jsstring) option"
  and parse_members :: "nat \<Rightarrow> jsstring \<Rightarrow> ((jsstring \<times> json) list \<times> jsstring) option"
where
  "parse_value 0 s = None"
| "parse_value (Suc n) s =
     (case skip_ws s of
        [] \<Rightarrow> None
      | c # cs \<Rightarrow>
          if c = 0x22 then
            (case parse_chars cs of
               None \<Rightarrow> None
             | Some (str, r) \<Rightarrow> Some (JStr str, r))
          else if c = 0x7B then
            (case skip_ws cs of
               [] \<Rightarrow> None
             | d # ds \<Rightarrow>
                 if d = 0x7D then Some (JObj [], ds)
                 else
                   (case parse_members n (d # ds) of
                      None \<Rightarrow> None
                    | Some (ms, r) \<Rightarrow> Some (JObj (define_members ms), r)))
          else if c = 0x5B then
            (case skip_ws cs of
               [] \<Rightarrow> None
             | d # ds \<Rightarrow>
                 if d = 0x5D then Some (JArr [], ds)
                 else
                   (case parse_elements n (d # ds) of
                      None \<Rightarrow> None
                    | Some (vs, r) \<Rightarrow> Some (JArr vs, r)))
          else if c = 0x74 then map_option (Pair (JBool True)) (lex_literal (js ''true'') (c # cs))
          else if c = 0x66 then map_option (Pair (JBool False)) (lex_literal (js ''false'') (c # cs))
          else if c = 0x6E then map_option (Pair JNull) (lex_literal (js ''null'') (c # cs))
          else
            (case parse_number (c # cs) of
               None \<Rightarrow> None
             | Some (lexeme, r) \<Rightarrow> Some (JNum lexeme, r)))"
| "parse_elements 0 s = None"
| "parse_elements (Suc n) s =
     (case parse_value n s of
        None \<Rightarrow> None
      | Some (v, r) \<Rightarrow>
          (case skip_ws r of
             [] \<Rightarrow> None
           | c # cs \<Rightarrow>
               if c = 0x5D then Some ([v], cs)
               else if c = 0x2C then
                 (case parse_elements n cs of
                    None \<Rightarrow> None
                  | Some (vs, r') \<Rightarrow> Some (v # vs, r'))
               else None))"
| "parse_members 0 s = None"
| "parse_members (Suc n) s =
     (case skip_ws s of
        [] \<Rightarrow> None
      | c # cs \<Rightarrow>
          if c \<noteq> 0x22 then None
          else
            (case parse_chars cs of
               None \<Rightarrow> None
             | Some (k, r) \<Rightarrow>
                 (case skip_ws r of
                    [] \<Rightarrow> None
                  | d # ds \<Rightarrow>
                      if d \<noteq> 0x3A then None
                      else
                        (case parse_value n ds of
                           None \<Rightarrow> None
                         | Some (v, r2) \<Rightarrow>
                             (case skip_ws r2 of
                                [] \<Rightarrow> None
                              | e # es \<Rightarrow>
                                  if e = 0x7D then Some ([(k, v)], es)
                                  else if e = 0x2C then
                                    (case parse_members n es of
                                       None \<Rightarrow> None
                                     | Some (ms, r3) \<Rightarrow> Some ((k, v) # ms, r3))
                                  else None)))))"

datatype error = SyntaxError

definition JSON_parse :: "jsstring \<Rightarrow> error + json" where
  "JSON_parse s =
     (case parse_value (2 * length s) s of
        None \<Rightarrow> Inl SyntaxError
      | Some (v, r) \<Rightarrow> if skip_ws r = [] then Inr v else Inl SyntaxError)"

section \<open>The data model (types.ts)\<close>

text \<open>
  \<open>VisitLog\<close> has two required and four optional string properties; an optional
  property that is absent, \<open>undefined\<close> or \<open>null\<close> is \<open>None\<close>
  (\<open>imageData\<close> is \<open>null\<close> after a reader of revision 1 has failed;
  \<open>JSON.stringify\<close> writes such a property as \<open>null\<close>, where the model
  leaves it out, and the value read back is \<open>None\<close> either way). \<open>VisitMap\<close> is
  \<open>Record<string, VisitLog>\<close>: an object, modelled as the list of its own properties in
  the order of their creation, with no name twice. \<open>{...visitMap, [k]: v}\<close> is
  \<open>AList.update k v\<close> (the value is replaced in place, or the property is added last),
  \<open>delete newMap[k]\<close> is \<open>AList.delete k\<close>, and \<open>visitMap[k]\<close> is
  \<open>map_of visitMap k\<close>. Two things an engine does are left out, since neither
  concerns a station code: it enumerates names that are array indices first, and a lookup
  also finds the names \<open>Object.prototype\<close> defines.
\<close>

record VisitLog =
  stationCode :: jsstring
  visitedDate :: jsstring
  imageData :: "jsstring option"
  caption :: "jsstring option"
  highlights :: "jsstring option"
  goodFood :: "jsstring option"

type_synonym VisitMap = "(jsstring \<times> VisitLog) list"

text \<open>
  \<open>JSON.stringify(newMap)\<close>: the properties of each object in order, a property whose
  value is \<open>undefined\<close> left out, no white space. A record does not keep the order
  in which the properties of a draft were created; \<open>properties\<close> lists them in the
  order of the interface. \<open>JSON.parse\<close> reads the members of an object in any order.
\<close>

definition optional :: "string \<Rightarrow> jsstring option \<Rightarrow> (jsstring \<times> jsstring) list" where
  "optional k v = (case v of None \<Rightarrow> [] | Some x \<Rightarrow> [(js k, x)])"

definition properties :: "VisitLog \<Rightarrow> (jsstring \<times> jsstring) list" where
  "properties v =
     [(js ''stationCode'', stationCode v), (js ''visitedDate'', visitedDate v)]
     @ optional ''imageData'' (imageData v)
     @ optional ''caption'' (caption v)
     @ optional ''highlights'' (highlights v)
     @ optional ''goodFood'' (goodFood v)"

fun join_comma :: "jsstring list \<Rightarrow> jsstring" where
  "join_comma [] = []"
| "join_comma [x] = x"
| "join_comma (x # y # ys) = x @ 0x2C # join_comma (y # ys)"

definition stringify_property :: "jsstring \<times> jsstring \<Rightarrow> jsstring" where
  "stringify_property p = QuoteJSONString (fst p) @ 0x3A # QuoteJSONString (snd p)"

definition stringify_VisitLog :: "VisitLog \<Rightarrow> jsstring" where
  "stringify_VisitLog v = 0x7B # join_comma (map stringify_property (properties v)) @ [0x7D]"

definition stringify_entry :: "jsstring \<times> VisitLog \<Rightarrow> jsstring" where
  "stringify_entry e = QuoteJSONString (fst e) @ 0x3A # stringify_VisitLog (snd e)"

definition JSON_stringify :: "VisitMap \<Rightarrow> jsstring" where
  "JSON_stringify m = 0x7B # join_comma (map stringify_entry m) @ [0x7D]"

text \<open>
  \<open>setVisitMap(JSON.parse(savedData))\<close> stores whatever value the text denotes.
  \<open>toJSON\<close> is the JSON value of a \<open>VisitMap\<close>, and \<open>asVisitMap\<close>
  recognises the JSON values that are one: an object whose every value is an object with
  string properties of the interface, the two required ones among them, an optional one
  possibly \<open>null\<close>.
\<close>

definition toJSON_VisitLog :: "VisitLog \<Rightarrow> json" where
  "toJSON_VisitLog v = JObj (map (\<lambda>(k, x). (k, JStr x)) (properties v))"

definition toJSON :: "VisitMap \<Rightarrow> json" where
  "toJSON m = JObj (map (\<lambda>(k, v). (k, toJSON_VisitLog v)) m)"

fun string_property :: "(jsstring \<times> json) list \<Rightarrow> string \<Rightarrow> jsstring option option" where
  "string_property ms k =
     (case map_of ms (js k) of
        None \<Rightarrow> Some None
      | Some JNull \<Rightarrow> Some None
      | Some (JStr x) \<Rightarrow> Some (Some x)
      | Some _ \<Rightarrow> None)"

definition known_properties :: "jsstring list" where
  "known_properties = map js [''stationCode'', ''visitedDate'', ''imageData'', ''caption'', ''highlights'', ''goodFood'']"

definition asVisitLog :: "json \<Rightarrow> VisitLog option" where
  "asVisitLog j =
     (case j of
        JObj ms \<Rightarrow>
          if \<not> list_all (\<lambda>k. k \<in> set known_properties) (map fst ms) then None
          else
            (case (string_property ms ''stationCode'', string_property ms ''visitedDate'',
                   string_property ms ''imageData'', string_property ms ''caption'',
                   string_property ms ''highlights'', string_property ms ''goodFood'') of
               (Some (Some a), Some (Some b), Some c, Some d, Some e, Some f) \<Rightarrow>
                 Some \<lparr>stationCode = a, visitedDate = b, imageData = c, caption = d,
                       highlights = e, goodFood = f\<rparr>
             | _ \<Rightarrow> None)
      | _ \<Rightarrow> None)"

fun asEntries :: "(jsstring \<times> json) list \<Rightarrow> VisitMap option" where
  "asEntries [] = Some []"
| "asEntries ((k, j) # ms) =
     (case asVisitLog j of
        None \<Rightarrow> None
      | Some v \<Rightarrow> map_option ((#) (k, v)) (asEntries ms))"

definition asVisitMap :: "json \<Rightarrow> VisitMap option" where
  "asVisitMap j = (case j of JObj ms \<Rightarrow> asEntries ms | _ \<Rightarrow> None)"

section \<open>The App component\<close>

text \<open>
  The repository holds two revisions of the component. Revision 1 reads the chosen image
  into a data URL and asks for a caption from the same callback; revision 2 shows the data
  URL as a preview, uploads the file to Cloudinary and asks for a caption when the upload has
  succeeded. Both share the state below, \<open>handleStationClick\<close>, \<open>saveEntry\<close>,
  \<open>deleteEntry\<close>, the effect that loads the saved visits and the progress counts.

  The catalogue \<open>MRT_LINES\<close> (constants.ts) and the API keys are parameters, collected
  in \<open>environment\<close>. \<open>localStorage\<close> is the item
  \<open>sg_rail_journey_visits\<close>; \<open>console\<close> collects what the component reports:
  \<open>console.error\<close>, \<open>alert\<close>, and an exception or rejection nothing catches.
  The theme, the expanded line and the search text are left out.
\<close>

record Station =
  code :: jsstring
  name :: jsstring

record MRTLine =
  line_id :: jsstring
  line_name :: jsstring
  colorClass :: jsstring
  stations :: "Station list"

record File =
  fileType :: jsstring
  fileBytes :: "8 word list"

datatype effect = ConsoleError string | Alert string | Uncaught string

record environment =
  process_env_API_KEY :: "jsstring option"
  VITE_GOOGLE_API_KEY :: "jsstring option"
  MRT_LINES :: "MRTLine list"

text \<open>
  \<open>getApiKey\<close>: revision 1 returns \<open>process.env.API_KEY\<close> when it is set and
  \<open>import.meta.env.VITE_GOOGLE_API_KEY\<close> otherwise (\<open>undefined\<close> when reading
  them throws); revision 2 returns the latter. The components test the key for truth: it
  is configured when it is defined and not the empty string.
\<close>

definition truthy :: "jsstring option \<Rightarrow> bool" where
  "truthy v = (case v of None \<Rightarrow> False | Some s \<Rightarrow> s \<noteq> [])"

definition getApiKey_v1 :: "environment \<Rightarrow> jsstring option" where
  "getApiKey_v1 env =
     (if truthy (process_env_API_KEY env) then process_env_API_KEY env
      else VITE_GOOGLE_API_KEY env)"

definition getApiKey_v2 :: "environment \<Rightarrow> jsstring option" where
  "getApiKey_v2 env = VITE_GOOGLE_API_KEY env"

text \<open>
  The argument of \<open>ai.models.generateContent\<close>: the model, the inline data (the type
  of the file and \<open>split(',')[1]\<close> of its data URL, which is undefined when the URL has
  no comma) and the prompt with the name of the station that was selected when the image was
  chosen. \<open>trim\<close> is \<open>String.prototype.trim\<close>: it removes white space and line
  terminators at both ends.
\<close>

record GenerateContentParameters =
  model :: jsstring
  mimeType :: jsstring
  inlineData :: "jsstring option"
  promptText :: jsstring

definition is_WhiteSpace :: "16 word \<Rightarrow> bool" where
  "is_WhiteSpace c =
     (c = 0x09 \<or> c = 0x0A \<or> c = 0x0B \<or> c = 0x0C \<or> c = 0x0D \<or> c = 0x20 \<or> c = 0xA0
      \<or> c = 0x1680 \<or> (0x2000 \<le> c \<and> c \<le> 0x200A) \<or> c = 0x2028 \<or> c = 0x2029
      \<or> c = 0x202F \<or> c = 0x205F \<or> c = 0x3000 \<or> c = 0xFEFF)"

definition trim :: "jsstring \<Rightarrow> jsstring" where
  "trim s = rev (dropWhile is_WhiteSpace (rev (dropWhile is_WhiteSpace s)))"

definition split_comma_1 :: "jsstring \<Rightarrow> jsstring option" where
  "split_comma_1 s =
     (case dropWhile (\<lambda>c. c \<noteq> 0x2C) s of
        [] \<Rightarrow> None
      | c # r \<Rightarrow> Some (takeWhile (\<lambda>c. c \<noteq> 0x2C) r))"

definition generateContentParameters ::
  "File \<Rightarrow> jsstring \<Rightarrow> (Station \<times> MRTLine) option \<Rightarrow> GenerateContentParameters" where
  "generateContentParameters file base64 selected =
     \<lparr>model = js ''gemini-2.5-flash'',
      mimeType = fileType file,
      inlineData = split_comma_1 base64,
      promptText =
        js ''Write a poetic, 1-sentence gratitude caption about this scene at ''
        @ (case selected of None \<Rightarrow> js ''undefined'' | Some (station, line) \<Rightarrow> name station)
        @ js '' MRT station.''\<rparr>"

text \<open>
  The state of the component. A handler runs on the state of the latest render, which is the
  current state; what an asynchronous callback has captured (the file, the selected station)
  it keeps from the render in which \<open>handleImageUpload\<close> ran, while
  \<open>setTempVisit(prev => ...)\<close> reads the draft that is current when the callback runs.
\<close>

record app =
  visitMap :: VisitMap
  selectedStationData :: "(Station \<times> MRTLine) option"
  isModalOpen :: bool
  tempVisit :: "VisitLog option"
  localStorage :: "jsstring option"
  console :: "effect list"

text \<open>
  An input is what the user or the environment does next. A click on Save or Clear carries
  whether \<open>localStorage.setItem\<close> succeeds (it throws when the quota is exceeded);
  \<open>ReaderDone\<close>, \<open>UploadDone\<close> and \<open>GenerateDone\<close> end the task at
  the given position with the result of the reader (\<open>None\<close> when reading failed), of
  \<open>uploadImage\<close>, and of \<open>generateContent\<close> (the \<open>text\<close> of the
  response, which may be undefined). The controls of the modal exist only while it is
  rendered (\<open>modalShown\<close>).
\<close>

datatype 'a promise = Fulfilled 'a | Rejected

datatype input =
    StationClick Station MRTLine jsstring
  | CloseModal
  | ChangeDate jsstring
  | ChangeCaption jsstring
  | ChangeHighlights jsstring
  | ChangeGoodFood jsstring
  | ChooseFile "File option"
  | ClickSave bool
  | ClickClear bool
  | ReaderDone nat "jsstring option"
  | UploadDone nat "jsstring promise"
  | GenerateDone nat "jsstring option promise"

text \<open>
  The effect on mount: \<open>localStorage.getItem\<close>, and \<open>JSON.parse\<close> of a text
  that is not empty, in a \<open>try\<close> whose \<open>catch\<close> logs the error. A text that
  is JSON but no \<open>VisitMap\<close> would leave the component with a value outside its
  type; the model stops there with \<open>NotAVisitMap\<close>.
\<close>

datatype not_a_VisitMap = NotAVisitMap json

definition loadVisits :: "'a app_scheme \<Rightarrow> not_a_VisitMap + 'a app_scheme" where
  "loadVisits s =
     (case localStorage s of
        None \<Rightarrow> Inr s
      | Some savedData \<Rightarrow>
          if savedData = [] then Inr s
          else
            (case JSON_parse savedData of
               Inl e \<Rightarrow> Inr (s\<lparr>console := console s @ [ConsoleError ''Error loading saved data'']\<rparr>)
             | Inr parsed \<Rightarrow>
                 (case asVisitMap parsed of
                    None \<Rightarrow> Inl (NotAVisitMap parsed)
                  | Some m \<Rightarrow> Inr (s\<lparr>visitMap := m\<rparr>))))"

text \<open>
  \<open>handleStationClick\<close>: the draft is a copy of the record stored for the station, or
  a new one dated \<open>today\<close> (\<open>new Date().toISOString().split('T')[0]\<close>).
  \<open>setTempVisit f\<close> is \<open>setTempVisit(prev => prev ? f(prev) : null)\<close>.
\<close>

definition handleStationClick :: "Station \<Rightarrow> MRTLine \<Rightarrow> jsstring \<Rightarrow> 'a app_scheme \<Rightarrow> 'a app_scheme" where
  "handleStationClick station line today s =
     s\<lparr>selectedStationData := Some (station, line),
       tempVisit :=
         Some (case map_of (visitMap s) (code station) of
                 Some existing \<Rightarrow> existing
               | None \<Rightarrow>
                   \<lparr>stationCode = code station, visitedDate = today, imageData = None,
                    caption = None, highlights = None, goodFood = None\<rparr>),
       isModalOpen := True\<rparr>"

definition setTempVisit :: "(VisitLog \<Rightarrow> VisitLog) \<Rightarrow> 'a app_scheme \<Rightarrow> 'a app_scheme" where
  "setTempVisit f s = s\<lparr>tempVisit := (case tempVisit s of None \<Rightarrow> None | Some prev \<Rightarrow> Some (f prev))\<rparr>"

text \<open>
  \<open>saveEntry\<close> and \<open>deleteEntry\<close> call \<open>setVisitMap(newMap)\<close> before
  \<open>localStorage.setItem\<close>. When \<open>setItem\<close> throws (\<open>stored\<close> is
  false) the new store stands, the modal stays open and nothing catches the exception.
\<close>

definition saveEntry :: "bool \<Rightarrow> 'a app_scheme \<Rightarrow> 'a app_scheme" where
  "saveEntry stored s =
     (case tempVisit s of
        None \<Rightarrow> s
      | Some draft \<Rightarrow>
          (let newMap = AList.update (stationCode draft) draft (visitMap s) in
           if stored then
             s\<lparr>visitMap := newMap, localStorage := Some (JSON_stringify newMap), isModalOpen := False\<rparr>
           else
             s\<lparr>visitMap := newMap, console := console s @ [Uncaught ''QuotaExceededError'']\<rparr>))"

definition deleteEntry :: "bool \<Rightarrow> 'a app_scheme \<Rightarrow> 'a app_scheme" where
  "deleteEntry stored s =
     (case selectedStationData s of
        None \<Rightarrow> s
      | Some (station, line) \<Rightarrow>
          (let newMap = AList.delete (code station) (visitMap s) in
           if stored then
             s\<lparr>visitMap := newMap, localStorage := Some (JSON_stringify newMap), isModalOpen := False\<rparr>
           else
             s\<lparr>visitMap := newMap, console := console s @ [Uncaught ''QuotaExceededError'']\<rparr>))"

text \<open>
  The progress counts: \<open>MRT_LINES.reduce((sum, line) => sum + line.stations.length, 0)\<close>,
  \<open>Object.keys(visitMap).length\<close>, and for a line
  \<open>line.stations.filter(s => visitMap[s.code]).length\<close>.
\<close>

definition totalStations :: "MRTLine list \<Rightarrow> nat" where
  "totalStations lines = foldl (\<lambda>sum line. sum + length (stations line)) 0 lines"

definition totalVisited :: "VisitMap \<Rightarrow> nat" where
  "totalVisited m = length (map fst m)"

definition lineVisited :: "VisitMap \<Rightarrow> MRTLine \<Rightarrow> nat" where
  "lineVisited m line = length (filter (\<lambda>s. map_of m (code s) \<noteq> None) (stations line))"

text \<open>
  The modal is rendered under \<open>isModalOpen && selectedStationData\<close>.
  \<open>common_step\<close> is what both revisions do on the inputs they treat alike.
\<close>

definition modalShown :: "'a app_scheme \<Rightarrow> bool" where
  "modalShown s = (isModalOpen s \<and> selectedStationData s \<noteq> None)"

definition remove_nth :: "nat \<Rightarrow> 'b list \<Rightarrow> 'b list" where
  "remove_nth i xs = take i xs @ drop (Suc i) xs"

definition common_step :: "input \<Rightarrow> 'a app_scheme \<Rightarrow> 'a app_scheme" where
  "common_step e s =
     (case e of
        StationClick station line today \<Rightarrow> handleStationClick station line today s
      | CloseModal \<Rightarrow> if modalShown s then s\<lparr>isModalOpen := False\<rparr> else s
      | ChangeDate v \<Rightarrow>
          if modalShown s then setTempVisit (\<lambda>prev. prev\<lparr>visitedDate := v\<rparr>) s else s
      | ChangeCaption v \<Rightarrow>
          if modalShown s then setTempVisit (\<lambda>prev. prev\<lparr>caption := Some v\<rparr>) s else s
      | ChangeHighlights v \<Rightarrow>
          if modalShown s then setTempVisit (\<lambda>prev. prev\<lparr>highlights := Some v\<rparr>) s else s
      | ChangeGoodFood v \<Rightarrow>
          if modalShown s then setTempVisit (\<lambda>prev. prev\<lparr>goodFood := Some v\<rparr>) s else s
      | ClickClear stored \<Rightarrow> if modalShown s then deleteEntry stored s else s
      | _ \<Rightarrow> s)"

subsection \<open>Revision 1: inline image and caption\<close>

text \<open>
  A task is an asynchronous operation in flight with what its callback has captured.
  \<open>handleImageUpload\<close> starts \<open>reader.readAsDataURL(file)\<close>;
  \<open>reader.onloadend\<close> stores the result as \<open>imageData\<close> and, when an API
  key is configured, awaits \<open>generateContent\<close>; its answer, trimmed, becomes the
  caption. Every exception of the caption step is caught and logged.
\<close>

datatype task_v1 =
    Reading_v1 File "(Station \<times> MRTLine) option"
  | Generating_v1 GenerateContentParameters

record app_v1 = app +
  isLoadingCaption :: bool
  tasks_v1 :: "task_v1 list"

definition initial_v1 :: "jsstring option \<Rightarrow> app_v1" where
  "initial_v1 blob =
     \<lparr>visitMap = [], selectedStationData = None, isModalOpen = False, tempVisit = None,
      localStorage = blob, console = [], isLoadingCaption = False, tasks_v1 = []\<rparr>"

definition handleImageUpload_v1 :: "File option \<Rightarrow> app_v1 \<Rightarrow> app_v1" where
  "handleImageUpload_v1 chosen s =
     (case chosen of
        None \<Rightarrow> s
      | Some file \<Rightarrow>
          if tempVisit s = None then s
          else s\<lparr>tasks_v1 := tasks_v1 s @ [Reading_v1 file (selectedStationData s)]\<rparr>)"

definition onloadend_v1 ::
  "environment \<Rightarrow> File \<Rightarrow> (Station \<times> MRTLine) option \<Rightarrow> jsstring option \<Rightarrow> app_v1 \<Rightarrow> app_v1" where
  "onloadend_v1 env file selected result s =
     (let s1 = setTempVisit (\<lambda>prev. prev\<lparr>imageData := result\<rparr>) s in
      if truthy (getApiKey_v1 env) then
        (case result of
           None \<Rightarrow>
             s1\<lparr>console := console s1 @ [ConsoleError ''AI Error:''], isLoadingCaption := False\<rparr>
         | Some base64 \<Rightarrow>
             s1\<lparr>isLoadingCaption := True,
                tasks_v1 := tasks_v1 s1 @ [Generating_v1 (generateContentParameters file base64 selected)]\<rparr>)
      else s1)"

definition generated_v1 :: "jsstring option promise \<Rightarrow> app_v1 \<Rightarrow> app_v1" where
  "generated_v1 response s =
     (case response of
        Fulfilled (Some text) \<Rightarrow>
          (setTempVisit (\<lambda>prev. prev\<lparr>caption := Some (trim text)\<rparr>) s)\<lparr>isLoadingCaption := False\<rparr>
      | Fulfilled None \<Rightarrow>
          s\<lparr>console := console s @ [ConsoleError ''AI Error:''], isLoadingCaption := False\<rparr>
      | Rejected \<Rightarrow>
          s\<lparr>console := console s @ [ConsoleError ''AI Error:''], isLoadingCaption := False\<rparr>)"

definition step_v1 :: "environment \<Rightarrow> input \<Rightarrow> app_v1 \<Rightarrow> app_v1" where
  "step_v1 env e s =
     (case e of
        ChooseFile chosen \<Rightarrow> if modalShown s then handleImageUpload_v1 chosen s else s
      | ClickSave stored \<Rightarrow> if modalShown s then saveEntry stored s else s
      | ReaderDone i result \<Rightarrow>
          if i < length (tasks_v1 s) then
            (case tasks_v1 s ! i of
               Reading_v1 file selected \<Rightarrow>
                 onloadend_v1 env file selected result (s\<lparr>tasks_v1 := remove_nth i (tasks_v1 s)\<rparr>)
             | _ \<Rightarrow> s)
          else s
      | GenerateDone i response \<Rightarrow>
          if i < length (tasks_v1 s) then
            (case tasks_v1 s ! i of
               Generating_v1 request \<Rightarrow>
                 generated_v1 response (s\<lparr>tasks_v1 := remove_nth i (tasks_v1 s)\<rparr>)
             | _ \<Rightarrow> s)
          else s
      | UploadDone i outcome \<Rightarrow> s
      | _ \<Rightarrow> common_step e s)"

definition run_v1 :: "environment \<Rightarrow> input list \<Rightarrow> app_v1 \<Rightarrow> app_v1" where
  "run_v1 env es s = foldl (\<lambda>s e. step_v1 env e s) s es"

subsection \<open>Revision 2: Cloudinary upload\<close>

text \<open>
  \<open>handleImageUpload\<close> starts the preview reader and \<open>uploadImage(file)\<close>
  and sets \<open>isUploading\<close>. When the upload is fulfilled the URL becomes
  \<open>imageData\<close> and \<open>generateCaption(file)\<close> is called; when it is rejected
  the error is logged and alerted. Either way \<open>isUploading\<close> is cleared.
  \<open>generateCaption\<close> returns at once without an API key; otherwise it reads the file
  again and awaits \<open>generateContent\<close> from \<open>reader.onloadend\<close>, an
  asynchronous callback outside the \<open>try\<close>, so an exception there is caught by
  nothing. The Save button is disabled while \<open>isUploading\<close> is set.
\<close>

datatype task_v2 =
    Preview_v2 File
  | Uploading_v2 File "(Station \<times> MRTLine) option"
  | Reading_v2 File jsstring "(Station \<times> MRTLine) option"
  | Generating_v2 GenerateContentParameters

record app_v2 = app +
  isUploading :: bool
  isGeneratingCaption :: bool
  tasks_v2 :: "task_v2 list"

definition initial_v2 :: "jsstring option \<Rightarrow> app_v2" where
  "initial_v2 blob =
     \<lparr>visitMap = [], selectedStationData = None, isModalOpen = False, tempVisit = None,
      localStorage = blob, console = [], isUploading = False, isGeneratingCaption = False,
      tasks_v2 = []\<rparr>"

definition generateCaption :: "environment \<Rightarrow> File \<Rightarrow> (Station \<times> MRTLine) option \<Rightarrow> app_v2 \<Rightarrow> app_v2" where
  "generateCaption env file selected s =
     (case getApiKey_v2 env of
        None \<Rightarrow> s
      | Some apiKey \<Rightarrow>
          if apiKey = [] then s
          else s\<lparr>isGeneratingCaption := True,
                 tasks_v2 := tasks_v2 s @ [Reading_v2 file apiKey selected]\<rparr>)"

definition handleImageUpload_v2 :: "File option \<Rightarrow> app_v2 \<Rightarrow> app_v2" where
  "handleImageUpload_v2 chosen s =
     (case chosen of
        None \<Rightarrow> s
      | Some file \<Rightarrow>
          if tempVisit s = None then s
          else s\<lparr>isUploading := True,
                 tasks_v2 := tasks_v2 s @ [Preview_v2 file, Uploading_v2 file (selectedStationData s)]\<rparr>)"

definition onload_v2 :: "jsstring option \<Rightarrow> app_v2 \<Rightarrow> app_v2" where
  "onload_v2 result s =
     (case result of
        None \<Rightarrow> s
      | Some dataUrl \<Rightarrow> setTempVisit (\<lambda>prev. prev\<lparr>imageData := Some dataUrl\<rparr>) s)"

definition uploaded_v2 ::
  "environment \<Rightarrow> File \<Rightarrow> (Station \<times> MRTLine) option \<Rightarrow> jsstring promise \<Rightarrow> app_v2 \<Rightarrow> app_v2" where
  "uploaded_v2 env file selected outcome s =
     (case outcome of
        Fulfilled cloudUrl \<Rightarrow>
          (generateCaption env file selected
             (setTempVisit (\<lambda>prev. prev\<lparr>imageData := Some cloudUrl\<rparr>) s))\<lparr>isUploading := False\<rparr>
      | Rejected \<Rightarrow>
          s\<lparr>console := console s @ [ConsoleError ''Upload failed'',
                 Alert ''Failed to upload image to cloud. Please try again.''],
            isUploading := False\<rparr>)"

definition onloadend_v2 ::
  "File \<Rightarrow> (Station \<times> MRTLine) option \<Rightarrow> jsstring option \<Rightarrow> app_v2 \<Rightarrow> app_v2" where
  "onloadend_v2 file selected result s =
     (case result of
        None \<Rightarrow> s\<lparr>console := console s @ [Uncaught ''TypeError'']\<rparr>
      | Some dataUrl \<Rightarrow>
          s\<lparr>tasks_v2 := tasks_v2 s @ [Generating_v2 (generateContentParameters file dataUrl selected)]\<rparr>)"

definition generated_v2 :: "jsstring option promise \<Rightarrow> app_v2 \<Rightarrow> app_v2" where
  "generated_v2 response s =
     (case response of
        Fulfilled (Some text) \<Rightarrow>
          (setTempVisit (\<lambda>prev. prev\<lparr>caption := Some (trim text)\<rparr>) s)\<lparr>isGeneratingCaption := False\<rparr>
      | Fulfilled None \<Rightarrow> s\<lparr>console := console s @ [Uncaught ''TypeError'']\<rparr>
      | Rejected \<Rightarrow> s\<lparr>console := console s @ [Uncaught ''unhandled rejection'']\<rparr>)"

definition step_v2 :: "environment \<Rightarrow> input \<Rightarrow> app_v2 \<Rightarrow> app_v2" where
  "step_v2 env e s =
     (case e of
        ChooseFile chosen \<Rightarrow> if modalShown s then handleImageUpload_v2 chosen s else s
      | ClickSave stored \<Rightarrow> if modalShown s \<and> \<not> isUploading s then saveEntry stored s else s
      | ReaderDone i result \<Rightarrow>
          if i < length (tasks_v2 s) then
            (case tasks_v2 s ! i of
               Preview_v2 file \<Rightarrow> onload_v2 result (s\<lparr>tasks_v2 := remove_nth i (tasks_v2 s)\<rparr>)
             | Reading_v2 file apiKey selected \<Rightarrow>
                 onloadend_v2 file selected result (s\<lparr>tasks_v2 := remove_nth i (tasks_v2 s)\<rparr>)
             | _ \<Rightarrow> s)
          else s
      | UploadDone i outcome \<Rightarrow>
          if i < length (tasks_v2 s) then
            (case tasks_v2 s ! i of
               Uploading_v2 file selected \<Rightarrow>
                 uploaded_v2 env file selected outcome (s\<lparr>tasks_v2 := remove_nth i (tasks_v2 s)\<rparr>)
             | _ \<Rightarrow> s)
          else s
      | GenerateDone i response \<Rightarrow>
          if i < length (tasks_v2 s) then
            (case tasks_v2 s ! i of
               Generating_v2 request \<Rightarrow>
                 generated_v2 response (s\<lparr>tasks_v2 := remove_nth i (tasks_v2 s)\<rparr>)
             | _ \<Rightarrow> s)
          else s
      | _ \<Rightarrow> common_step e s)"

definition run_v2 :: "environment \<Rightarrow> input list \<Rightarrow> app_v2 \<Rightarrow> app_v2" where
  "run_v2 env es s = foldl (\<lambda>s e. step_v2 env e s) s es"

section \<open>Predicates and example data of the properties\<close>

definition keyed :: "VisitMap \<Rightarrow> bool" where
  "keyed m = list_all (\<lambda>(k, v). stationCode v = k) m"

definition draft_of_selection :: "'a app_scheme \<Rightarrow> bool" where
  "draft_of_selection s =
     (case tempVisit s of
        None \<Rightarrow> selectedStationData s = None
      | Some draft \<Rightarrow>
          (case selectedStationData s of
             None \<Rightarrow> False
           | Some (station, line) \<Rightarrow> stationCode draft = code station))"

definition EW18 :: Station where
  "EW18 = \<lparr>code = js ''EW18'', name = js ''Redhill''\<rparr>"

definition NS1 :: Station where
  "NS1 = \<lparr>code = js ''NS1'', name = js ''Jurong East''\<rparr>"

definition EWL :: MRTLine where
  "EWL = \<lparr>line_id = js ''EWL'', line_name = js ''East West Line'', colorClass = js ''bg-green-600'',
           stations = [EW18]\<rparr>"

definition NSL :: MRTLine where
  "NSL = \<lparr>line_id = js ''NSL'', line_name = js ''North South Line'', colorClass = js ''bg-red-600'',
           stations = [NS1]\<rparr>"

definition photo :: File where
  "photo = \<lparr>fileType = js ''image/png'', fileBytes = [0x89, 0x50, 0x4E, 0x47]\<rparr>"

definition draft_EW18 :: VisitLog where
  "draft_EW18 =
     \<lparr>stationCode = js ''EW18'', visitedDate = js ''2024-05-01'', imageData = None,
      caption = None, highlights = None, goodFood = None\<rparr>"

definition with_key :: environment where
  "with_key = \<lparr>process_env_API_KEY = None, VITE_GOOGLE_API_KEY = Some (js ''key''),
                MRT_LINES = [EWL, NSL]\<rparr>"

definition without_key :: environment where
  "without_key = \<lparr>process_env_API_KEY = None, VITE_GOOGLE_API_KEY = None,
                   MRT_LINES = [EWL, NSL]\<rparr>"

definition catalog_codes :: "MRTLine list \<Rightarrow> jsstring list" where
  "catalog_codes lines = map code (concat (map stations lines))"

definition spec_visitedCount :: "VisitMap \<Rightarrow> MRTLine list \<Rightarrow> nat" where
  "spec_visitedCount m lines = length (filter (\<lambda>k. k \<in> set (catalog_codes lines)) (map fst m))"

definition attachment_event :: "input \<Rightarrow> bool" where
  "attachment_event e =
     (case e of
        ChooseFile chosen \<Rightarrow> True
      | ReaderDone i result \<Rightarrow> True
      | UploadDone i outcome \<Rightarrow> True
      | GenerateDone i response \<Rightarrow> True
      | _ \<Rightarrow> False)"

definition caption_error :: "effect \<Rightarrow> bool" where
  "caption_error x = (x = ConsoleError ''AI Error:'' \<or> x = Uncaught ''TypeError''
     \<or> x = Uncaught ''unhandled rejection'')"

definition upload_task :: "task_v2 \<Rightarrow> bool" where
  "upload_task t = (case t of Preview_v2 file \<Rightarrow> True | Uploading_v2 file selected \<Rightarrow> True | _ \<Rightarrow> False)"

definition reading_task :: "task_v1 \<Rightarrow> bool" where
  "reading_task t = (case t of Reading_v1 file selected \<Rightarrow> True | _ \<Rightarrow> False)"

text \<open>
  Input sequences and states used as examples: a draft for station EW18 with an image attached
  in each revision, a change of station while an upload is in flight, and a store that holds
  records of stations the catalogue does not have.
\<close>

definition draft_NS1 :: VisitLog where
  "draft_NS1 =
     \<lparr>stationCode = js ''NS1'', visitedDate = js ''2024-05-02'', imageData = None,
      caption = None, highlights = None, goodFood = None\<rparr>"

definition stale_store :: VisitMap where
  "stale_store =
     [(js ''EW18'', draft_EW18),
      (js ''TE1'', \<lparr>stationCode = js ''TE1'', visitedDate = js ''2023-01-15'', imageData = None,
                    caption = Some (js ''Woodlands North''), highlights = None, goodFood = None\<rparr>),
      (js ''TE2'', \<lparr>stationCode = js ''TE2'', visitedDate = js ''2023-01-16'', imageData = None,
                    caption = None, highlights = None, goodFood = None\<rparr>)]"

definition attach_v1 :: "input list" where
  "attach_v1 =
     [StationClick EW18 EWL (js ''2024-05-01''),
      ChooseFile (Some photo),
      ReaderDone 0 (Some (js ''data:image/png;base64,iVBORw''))]"

definition attach_v2 :: "input list" where
  "attach_v2 =
     [StationClick EW18 EWL (js ''2024-05-01''),
      ChooseFile (Some photo),
      ReaderDone 0 (Some (js ''data:image/png;base64,iVBORw'')),
      UploadDone 0 (Fulfilled (js ''https://res.cloudinary.com/demo/image/upload/a.png'')),
      ReaderDone 0 (Some (js ''data:image/png;base64,iVBORw''))]"

definition switch_v2 :: "input list" where
  "switch_v2 =
     [StationClick EW18 EWL (js ''2024-05-01''),
      ChooseFile (Some photo),
      CloseModal,
      StationClick NS1 NSL (js ''2024-05-02'')]"



definition attach_without_upload :: "input list" where
  "attach_without_upload =
     [StationClick EW18 EWL (js ''2024-05-01''),
      ChangeCaption (js ''mine''),
      ChooseFile (Some photo)]"

text \<open>
  \<open>draft_with_tasks\<close>: a task is in flight only while there is a draft.
  \<open>quiet_v1\<close> and \<open>quiet_v2\<close>: no caption request is in flight, the caption
  indicator is off and nothing of the caption step has been reported. \<open>uncaught\<close>
  recognises an exception or rejection that nothing caught.
\<close>

definition draft_with_tasks :: "app_v2 \<Rightarrow> bool" where
  "draft_with_tasks s = (case tempVisit s of None \<Rightarrow> tasks_v2 s = [] | Some draft \<Rightarrow> True)"

definition uncaught :: "effect \<Rightarrow> bool" where
  "uncaught x = (case x of Uncaught what \<Rightarrow> True | _ \<Rightarrow> False)"

definition quiet_v1 :: "app_v1 \<Rightarrow> bool" where
  "quiet_v1 s = (list_all reading_task (tasks_v1 s) \<and> \<not> isLoadingCaption s
     \<and> \<not> list_ex caption_error (console s))"

definition quiet_v2 :: "app_v2 \<Rightarrow> bool" where
  "quiet_v2 s = (list_all upload_task (tasks_v2 s) \<and> \<not> isGeneratingCaption s
     \<and> \<not> list_ex caption_error (console s))"

text \<open>
  \<open>fuel_value\<close>, \<open>fuel_elements\<close> and \<open>fuel_members\<close>: what the parser
  returns with fuel \<open>n\<close> it returns with any fuel from twice the length of what it
  consumed. \<open>from_catalog\<close>: a click on a station of the catalogue (or any other input);
  \<open>catalogued\<close>: the store has no key twice, and its keys, its records and the draft
  name stations of the catalogue.
\<close>

definition fuel_value :: "nat \<Rightarrow> bool" where
  "fuel_value n = (\<forall>s v r. parse_value n s = Some (v, r) \<longrightarrow>
     length r < length s \<and> (\<forall>m. 2 * (length s - length r) \<le> m \<longrightarrow> parse_value m s = Some (v, r)))"

definition fuel_elements :: "nat \<Rightarrow> bool" where
  "fuel_elements n = (\<forall>s vs r. parse_elements n s = Some (vs, r) \<longrightarrow>
     length r < length s \<and> (\<forall>m. 2 * (length s - length r) + 1 \<le> m \<longrightarrow> parse_elements m s = Some (vs, r)))"

definition fuel_members :: "nat \<Rightarrow> bool" where
  "fuel_members n = (\<forall>s ms r. parse_members n s = Some (ms, r) \<longrightarrow>
     length r < length s \<and> (\<forall>m. 2 * (length s - length r) + 1 \<le> m \<longrightarrow> parse_members m s = Some (ms, r)))"

definition from_catalog :: "MRTLine list \<Rightarrow> input \<Rightarrow> bool" where
  "from_catalog lines e =
     (case e of
        StationClick station line today \<Rightarrow> code station \<in> set (catalog_codes lines)
      | _ \<Rightarrow> True)"

definition catalogued :: "MRTLine list \<Rightarrow> 'a app_scheme \<Rightarrow> bool" where
  "catalogued lines s =
     (distinct (map fst (visitMap s))
      \<and> list_all (\<lambda>(k, v). k \<in> set (catalog_codes lines) \<and> stationCode v \<in> set (catalog_codes lines))
           (visitMap s)
      \<and> (case tempVisit s of
            None \<Rightarrow> True
          | Some draft \<Rightarrow> stationCode draft \<in> set (catalog_codes lines)))"

section \<open>The JSON round trip\<close>

lemma hexval_hexdigit: "n < 16 \<Longrightarrow> hexval (hexdigit n) = Some n"
proof -
  assume "n < 16"
  then have "n \<in> {0, 1, 2, 3, 4, 5, 6, 7, 8, 9, 10, 11, 12, 13, 14, 15}"
    by (simp; arith)
  then show ?thesis
    by (elim insertE emptyE; simp add: hexval_def hexdigit_def)
qed

lemma hex_split: "n div 4096 * 4096 + n div 256 mod 16 * 256 + n div 16 mod 16 * 16 + n mod 16 = (n::nat)"
proof -
  have a: "n div 16 * 16 + n mod 16 = n"
    by simp
  have "n div 256 = n div 16 div 16" "n div 4096 = n div 256 div 16"
    by (simp_all add: div_mult2_eq)
  then have b: "n div 256 * 16 + n div 16 mod 16 = n div 16"
    and c: "n div 4096 * 16 + n div 256 mod 16 = n div 256"
    by simp_all
  have "n div 4096 * 4096 + n div 256 mod 16 * 256 + n div 16 mod 16 * 16 + n mod 16
      = ((n div 4096 * 16 + n div 256 mod 16) * 16 + n div 16 mod 16) * 16 + n mod 16"
    by (simp add: algebra_simps)
  also have "\<dots> = n"
    by (simp only: a b c)
  finally show ?thesis .
qed

lemma parse_hex4_digits:
  "parse_hex4 (hexdigit (unat c div 4096)) (hexdigit (unat c div 256 mod 16))
     (hexdigit (unat c div 16 mod 16)) (hexdigit (unat c mod 16)) = Some c"
proof -
  define n where "n = unat c"
  have n: "n < 65536" using unsigned_less [of c] by (simp add: n_def)
  have *: "n div 4096 < 16" "n div 256 mod 16 < 16" "n div 16 mod 16 < 16" "n mod 16 < 16"
    using n by simp_all
  have "of_nat n = c" by (simp add: n_def)
  then show ?thesis
    using * hex_split [of n] by (simp add: parse_hex4_def hexval_hexdigit flip: n_def)
qed

lemma parse_chars_UnicodeEscape:
  "parse_chars (UnicodeEscape c @ t) = map_option (apfst ((#) c)) (parse_chars t)"
  by (simp add: UnicodeEscape_def hex4_def Let_def parse_hex4_digits)

lemma surrogate_plain:
  "is_high_surrogate c \<or> is_low_surrogate c \<Longrightarrow> c \<noteq> 0x22 \<and> c \<noteq> 0x5C \<and> \<not> c < 0x20"
  by (auto simp: is_high_surrogate_def is_low_surrogate_def word_le_nat_alt word_less_nat_alt)

lemma parse_chars_plain:
  "c \<noteq> 0x22 \<Longrightarrow> c \<noteq> 0x5C \<Longrightarrow> \<not> c < 0x20 \<Longrightarrow>
   parse_chars (c # t) = map_option (apfst ((#) c)) (parse_chars t)"
  by simp

lemma parse_chars_escape:
  "parse_chars (escape_unit c @ t) = map_option (apfst ((#) c)) (parse_chars t)"
proof -
  consider "c = 0x08" | "c = 0x09" | "c = 0x0A" | "c = 0x0C" | "c = 0x0D" | "c = 0x22" | "c = 0x5C"
    | "c \<notin> {0x08, 0x09, 0x0A, 0x0C, 0x0D, 0x22, 0x5C}" "c < 0x20 \<or> is_high_surrogate c \<or> is_low_surrogate c"
    | "c \<notin> {0x08, 0x09, 0x0A, 0x0C, 0x0D, 0x22, 0x5C}" "\<not> (c < 0x20 \<or> is_high_surrogate c \<or> is_low_surrogate c)"
    by blast
  then show ?thesis
  proof cases
    case 8
    then show ?thesis by (simp add: escape_unit_def parse_chars_UnicodeEscape)
  next
    case 9
    then show ?thesis by (simp add: escape_unit_def)
  qed (simp_all add: escape_unit_def unescape_def)
qed

lemma parse_chars_quote_body: "parse_chars (quote_body s @ 0x22 # r) = Some (s, r)"
proof (induction s rule: quote_body.induct)
  case 1
  show ?case by simp
next
  case (2 c)
  show ?case by (simp add: parse_chars_escape)
next
  case (3 c d cs)
  show ?case
  proof (cases "is_high_surrogate c \<and> is_low_surrogate d")
    case True
    then have "c \<noteq> 0x22 \<and> c \<noteq> 0x5C \<and> \<not> c < 0x20" "d \<noteq> 0x22 \<and> d \<noteq> 0x5C \<and> \<not> d < 0x20"
      using surrogate_plain by blast+
    moreover have "quote_body (c # d # cs) = c # d # quote_body cs"
      using True by simp
    ultimately show ?thesis
      using 3(1) [OF True] by (simp add: parse_chars_plain del: parse_chars.simps quote_body.simps)
  next
    case False
    then have "quote_body (c # d # cs) = escape_unit c @ quote_body (d # cs)"
      by auto
    then show ?thesis
      using 3(2) [OF False] by (simp add: parse_chars_escape del: parse_chars.simps quote_body.simps)
  qed
qed

lemma skip_ws_simps:
  "skip_ws [] = []"
  "skip_ws (0x22 # s) = 0x22 # s"
  "skip_ws (0x7B # s) = 0x7B # s"
  "skip_ws (0x7D # s) = 0x7D # s"
  "skip_ws (0x3A # s) = 0x3A # s"
  "skip_ws (0x2C # s) = 0x2C # s"
  by (simp_all add: skip_ws_def is_ws_def)

lemma parse_value_string:
  "parse_value (Suc n) (QuoteJSONString x @ r) = Some (JStr x, r)"
  by (simp add: QuoteJSONString_def skip_ws_simps parse_chars_quote_body)

lemma parse_members_step:
  "parse_members (Suc n) (QuoteJSONString k @ 0x3A # t) =
     (case parse_value n t of
        None \<Rightarrow> None
      | Some (v, r2) \<Rightarrow>
          (case skip_ws r2 of
             [] \<Rightarrow> None
           | e # es \<Rightarrow>
               if e = 0x7D then Some ([(k, v)], es)
               else if e = 0x2C then
                 (case parse_members n es of
                    None \<Rightarrow> None
                  | Some (ms, r3) \<Rightarrow> Some ((k, v) # ms, r3))
               else None))"
  by (simp add: QuoteJSONString_def skip_ws_simps parse_chars_quote_body)

lemma parse_members_last:
  "parse_members (Suc (Suc m)) (QuoteJSONString k @ 0x3A # QuoteJSONString x @ 0x7D # r)
     = Some ([(k, JStr x)], r)"
  by (simp add: parse_members_step parse_value_string skip_ws_simps
      del: parse_members.simps parse_value.simps)

lemma parse_members_more:
  "parse_members (Suc (Suc m)) (QuoteJSONString k @ 0x3A # QuoteJSONString x @ 0x2C # t)
     = (case parse_members (Suc m) t of
          None \<Rightarrow> None
        | Some (ms, r3) \<Rightarrow> Some ((k, JStr x) # ms, r3))"
  by (simp add: parse_members_step parse_value_string skip_ws_simps
      del: parse_members.simps parse_value.simps)

lemma parse_members_properties:
  "ps \<noteq> [] \<Longrightarrow> length ps < n \<Longrightarrow>
   parse_members n (join_comma (map stringify_property ps) @ 0x7D # r)
     = Some (map (\<lambda>(k, x). (k, JStr x)) ps, r)"
proof (induction ps arbitrary: n rule: induct_list012)
  case 1
  then show ?case by simp
next
  case (2 p)
  then obtain m where n: "n = Suc (Suc m)"
    by (metis One_nat_def Suc_lessE length_Cons list.size(3) less_Suc0 not0_implies_Suc)
  obtain k x where p: "p = (k, x)"
    by (cases p)
  show ?case
    unfolding n p by (simp add: stringify_property_def parse_members_last
        del: parse_members.simps parse_value.simps)
next
  case (3 p q ps)
  then obtain m where n: "n = Suc (Suc m)" and m: "length (q # ps) < Suc m"
    by (metis Suc_lessE length_Cons Suc_less_eq)
  obtain k x where p: "p = (k, x)"
    by (cases p)
  define t where "t = join_comma (map stringify_property (q # ps)) @ 0x7D # r"
  have ih: "parse_members (Suc m) t = Some (map (\<lambda>(k, x). (k, JStr x)) (q # ps), r)"
    unfolding t_def using 3(2) [OF _ m] by simp
  have "join_comma (map stringify_property (p # q # ps)) @ 0x7D # r
      = QuoteJSONString k @ 0x3A # QuoteJSONString x @ 0x2C # t"
    by (simp add: t_def p stringify_property_def)
  then show ?case
    unfolding n by (simp add: parse_members_more ih p
        del: parse_members.simps parse_value.simps)
qed

lemma unat_of_char: "unat (of_char a :: 16 word) = of_char a"
proof -
  have "(of_char a :: 16 word) = of_nat (of_char a)"
    by (simp only: of_nat_of_char)
  then have "unat (of_char a :: 16 word) = of_char a mod 2 ^ LENGTH(16)"
    by (simp only: unat_of_nat)
  moreover have "(of_char a :: nat) < 2 ^ LENGTH(16)"
    using nat_of_char_less_256 [of a] by (simp add: less_trans [where y = 256])
  ultimately show ?thesis
    by simp
qed

lemma of_char_word_inj: "(of_char a :: 16 word) = of_char b \<longleftrightarrow> a = b"
proof
  assume "(of_char a :: 16 word) = of_char b"
  then have "unat (of_char a :: 16 word) = unat (of_char b :: 16 word)"
    by simp
  then show "a = b"
    by (simp only: unat_of_char of_char_eq_iff)
qed simp

lemma js_eq_iff: "js a = js b \<longleftrightarrow> a = b"
  unfolding js_def
proof (induction a arbitrary: b)
  case Nil
  then show ?case by auto
next
  case (Cons x xs)
  then show ?case by (cases b) (simp_all add: of_char_word_inj)
qed

lemma update_fresh: "k \<notin> fst ` set al \<Longrightarrow> AList.update k v al = al @ [(k, v)]"
  by (induction al) auto

lemma foldl_update_distinct:
  "distinct (map fst (acc @ ms)) \<Longrightarrow>
   foldl (\<lambda>acc (k, v). AList.update k v acc) acc ms = acc @ ms"
proof (induction ms arbitrary: acc)
  case Nil
  then show ?case by simp
next
  case (Cons m ms)
  obtain k v where m: "m = (k, v)" by (cases m)
  from Cons.prems have fresh: "k \<notin> fst ` set acc" and d: "distinct (map fst ((acc @ [(k, v)]) @ ms))"
    by (auto simp: m)
  show ?case
    using Cons.IH [OF d] by (simp add: m update_fresh [OF fresh])
qed

lemma define_members_distinct: "distinct (map fst ms) \<Longrightarrow> define_members ms = ms"
  using foldl_update_distinct [of "[]" ms] by (simp add: define_members_def)

lemma properties_keys:
  "map fst (properties v) =
     js ''stationCode'' # js ''visitedDate'' #
       (case imageData v of None \<Rightarrow> [] | Some _ \<Rightarrow> [js ''imageData'']) @
       (case caption v of None \<Rightarrow> [] | Some _ \<Rightarrow> [js ''caption'']) @
       (case highlights v of None \<Rightarrow> [] | Some _ \<Rightarrow> [js ''highlights'']) @
       (case goodFood v of None \<Rightarrow> [] | Some _ \<Rightarrow> [js ''goodFood''])"
  by (simp add: properties_def optional_def split: option.split)

lemma distinct_properties: "distinct (map fst (properties v))"
  unfolding properties_keys by (simp add: js_eq_iff split: option.split)

lemma length_properties: "properties v \<noteq> []" "length (properties v) \<le> 6"
  by (simp_all add: properties_def optional_def split: option.split)

lemma parse_value_object:
  "parse_value (Suc m) (0x7B # 0x22 # t) =
     (case parse_members m (0x22 # t) of
        None \<Rightarrow> None
      | Some (ms, r) \<Rightarrow> Some (JObj (define_members ms), r))"
  by (simp add: skip_ws_simps)

lemma join_comma_quote:
  "xs \<noteq> [] \<Longrightarrow> \<forall>x \<in> set xs. \<exists>t. x = 0x22 # t \<Longrightarrow> \<exists>t. join_comma xs @ r = 0x22 # t"
  by (induction xs rule: induct_list012) auto

lemma parse_value_VisitLog:
  assumes "8 \<le> n"
  shows "parse_value n (stringify_VisitLog v @ r) = Some (toJSON_VisitLog v, r)"
proof -
  from assms obtain m where n: "n = Suc m" and m: "length (properties v) < m"
    using length_properties(2) [of v] by (cases n) auto
  have "\<exists>t. join_comma (map stringify_property (properties v)) @ 0x7D # r = 0x22 # t"
    by (rule join_comma_quote)
      (auto simp: length_properties(1) stringify_property_def QuoteJSONString_def)
  then obtain t where t: "join_comma (map stringify_property (properties v)) @ 0x7D # r = 0x22 # t"
    by blast
  have pm: "parse_members m (0x22 # t) = Some (map (\<lambda>(k, x). (k, JStr x)) (properties v), r)"
    using parse_members_properties [OF length_properties(1) m, of r] by (simp only: t)
  have dm: "define_members (map (\<lambda>(k, x). (k, JStr x)) (properties v))
      = map (\<lambda>(k, x). (k, JStr x)) (properties v)"
    by (rule define_members_distinct) (simp add: distinct_properties comp_def case_prod_unfold)
  have "stringify_VisitLog v @ r = 0x7B # 0x22 # t"
    by (simp add: stringify_VisitLog_def t)
  then show ?thesis
    by (simp only: n parse_value_object pm dm toJSON_VisitLog_def option.case prod.case)
qed

lemma parse_members_entries:
  "m \<noteq> [] \<Longrightarrow> length m + 8 \<le> n \<Longrightarrow>
   parse_members n (join_comma (map stringify_entry m) @ 0x7D # r)
     = Some (map (\<lambda>(k, v). (k, toJSON_VisitLog v)) m, r)"
proof (induction m arbitrary: n rule: induct_list012)
  case 1
  then show ?case by simp
next
  case (2 e)
  then obtain j where n: "n = Suc j" and j: "8 \<le> j"
    by (cases n) auto
  obtain k v where e: "e = (k, v)"
    by (cases e)
  have "join_comma (map stringify_entry [e]) @ 0x7D # r
      = QuoteJSONString k @ 0x3A # stringify_VisitLog v @ 0x7D # r"
    by (simp add: e stringify_entry_def)
  then show ?case
    unfolding n
    by (simp add: parse_members_step parse_value_VisitLog [OF j] skip_ws_simps e
        del: parse_members.simps parse_value.simps)
next
  case (3 e f m)
  then obtain j where n: "n = Suc j" and j: "8 \<le> j" and len: "length (f # m) + 8 \<le> j"
    by (cases n) auto
  obtain k v where e: "e = (k, v)"
    by (cases e)
  define t where "t = join_comma (map stringify_entry (f # m)) @ 0x7D # r"
  have ih: "parse_members j t = Some (map (\<lambda>(k, v). (k, toJSON_VisitLog v)) (f # m), r)"
    unfolding t_def using 3(2) [OF _ len] by simp
  have "join_comma (map stringify_entry (e # f # m)) @ 0x7D # r
      = QuoteJSONString k @ 0x3A # stringify_VisitLog v @ 0x2C # t"
    by (simp add: t_def e stringify_entry_def)
  then show ?case
    unfolding n
    by (simp add: parse_members_step parse_value_VisitLog [OF j] skip_ws_simps ih e
        del: parse_members.simps parse_value.simps)
qed

lemma length_join_comma: "sum_list (map length xs) \<le> length (join_comma xs)"
  by (induction xs rule: induct_list012) simp_all

lemma length_entries: "5 * length m \<le> length (join_comma (map stringify_entry m))"
proof -
  have "5 * length m \<le> sum_list (map length (map stringify_entry m))"
    by (induction m) (simp_all add: stringify_entry_def stringify_VisitLog_def QuoteJSONString_def)
  then show ?thesis
    using length_join_comma [of "map stringify_entry m"] by linarith
qed

lemma parse_value_VisitMap:
  assumes "distinct (map fst m)" and "length m + 9 \<le> n \<or> m = [] \<and> 0 < n"
  shows "parse_value n (JSON_stringify m @ r) = Some (toJSON m, r)"
proof (cases m)
  case Nil
  from assms obtain j where "n = Suc j"
    by (cases n) auto
  then show ?thesis
    by (simp add: Nil JSON_stringify_def toJSON_def skip_ws_simps)
next
  case (Cons e m')
  from assms Cons obtain j where n: "n = Suc j" and j: "length m + 8 \<le> j"
    by (cases n) auto
  have "\<exists>t. join_comma (map stringify_entry m) @ 0x7D # r = 0x22 # t"
    by (rule join_comma_quote) (auto simp: Cons stringify_entry_def QuoteJSONString_def)
  then obtain t where t: "join_comma (map stringify_entry m) @ 0x7D # r = 0x22 # t"
    by blast
  have pm: "parse_members j (0x22 # t) = Some (map (\<lambda>(k, v). (k, toJSON_VisitLog v)) m, r)"
    using parse_members_entries [OF _ j, of r] by (simp add: Cons flip: t)
  have dm: "define_members (map (\<lambda>(k, v). (k, toJSON_VisitLog v)) m)
      = map (\<lambda>(k, v). (k, toJSON_VisitLog v)) m"
    by (rule define_members_distinct) (simp add: assms(1) comp_def case_prod_unfold)
  have "JSON_stringify m @ r = 0x7B # 0x22 # t"
    by (simp add: JSON_stringify_def t)
  then show ?thesis
    by (simp only: n parse_value_object pm dm toJSON_def option.case prod.case)
qed

lemma JSON_parse_stringify:
  assumes "distinct (map fst m)"
  shows "JSON_parse (JSON_stringify m) = Inr (toJSON m)"
proof -
  have len: "length (JSON_stringify m) = length (join_comma (map stringify_entry m)) + 2"
    by (simp add: JSON_stringify_def)
  then have "length m + 9 \<le> 2 * length (JSON_stringify m) \<or> m = [] \<and> 0 < 2 * length (JSON_stringify m)"
    using length_entries [of m] by (cases m) auto
  then have "parse_value (2 * length (JSON_stringify m)) (JSON_stringify m @ []) = Some (toJSON m, [])"
    by (rule parse_value_VisitMap [OF assms])
  then show ?thesis
    by (simp add: JSON_parse_def skip_ws_simps)
qed

lemma map_of_properties:
  "map_of (properties v) (js ''stationCode'') = Some (stationCode v)"
  "map_of (properties v) (js ''visitedDate'') = Some (visitedDate v)"
  "map_of (properties v) (js ''imageData'') = imageData v"
  "map_of (properties v) (js ''caption'') = caption v"
  "map_of (properties v) (js ''highlights'') = highlights v"
  "map_of (properties v) (js ''goodFood'') = goodFood v"
  by (cases "imageData v"; cases "caption v"; cases "highlights v"; cases "goodFood v";
      simp add: properties_def optional_def js_eq_iff)+

lemma map_of_JStr:
  "map_of (map (\<lambda>(k, x). (k, JStr x)) ps) k = map_option JStr (map_of ps k)"
  by (induction ps) auto

lemma string_property_properties:
  "string_property (map (\<lambda>(k, x). (k, JStr x)) (properties v)) ''stationCode'' = Some (Some (stationCode v))"
  "string_property (map (\<lambda>(k, x). (k, JStr x)) (properties v)) ''visitedDate'' = Some (Some (visitedDate v))"
  "string_property (map (\<lambda>(k, x). (k, JStr x)) (properties v)) ''imageData'' = Some (imageData v)"
  "string_property (map (\<lambda>(k, x). (k, JStr x)) (properties v)) ''caption'' = Some (caption v)"
  "string_property (map (\<lambda>(k, x). (k, JStr x)) (properties v)) ''highlights'' = Some (highlights v)"
  "string_property (map (\<lambda>(k, x). (k, JStr x)) (properties v)) ''goodFood'' = Some (goodFood v)"
  by (simp_all add: map_of_JStr map_of_properties split: option.split)

lemma map_fst_JStr: "map fst (map (\<lambda>(k, x). (k, JStr x)) ps) = map fst ps"
  by (induction ps) auto

lemma known_properties_properties:
  "list_all (\<lambda>k. k \<in> set known_properties) (map fst (map (\<lambda>(k, x). (k, JStr x)) (properties v)))"
  unfolding map_fst_JStr properties_keys
  by (simp add: known_properties_def split: option.split)

lemma asVisitLog_toJSON: "asVisitLog (toJSON_VisitLog v) = Some v"
  using known_properties_properties [of v]
  by (simp add: asVisitLog_def toJSON_VisitLog_def string_property_properties
      del: string_property.simps)

lemma asEntries_toJSON: "asEntries (map (\<lambda>(k, v). (k, toJSON_VisitLog v)) m) = Some m"
  by (induction m) (auto simp: asVisitLog_toJSON)

lemma asVisitMap_toJSON: "asVisitMap (toJSON m) = Some m"
  by (simp add: asVisitMap_def toJSON_def asEntries_toJSON)

section \<open>The fuel of the parser\<close>

text \<open>
  Fuel never decides the outcome of \<open>JSON_parse\<close>: a value the parser finds with any
  fuel it finds with twice the length of the text, so \<open>SyntaxError\<close> means that no fuel
  reads the text as one JSON value.
\<close>

lemma length_skip_ws: "length (skip_ws s) \<le> length s"
  by (simp add: skip_ws_def length_dropWhile_le)

lemma skip_ws_Cons_length: "skip_ws s = c # cs \<Longrightarrow> length cs < length s"
  using length_skip_ws [of s] by simp

lemma parse_chars_shorter: "parse_chars s = Some (x, r) \<Longrightarrow> length r < length s"
proof (induction s arbitrary: x r rule: length_induct)
  case (1 s)
  have sub: "length r < length t" if "parse_chars t = Some (y, r)" "length t < length s" for t y
    using 1(1) that by blast
  show ?case
  proof (cases s)
    case Nil
    with 1(2) show ?thesis by simp
  next
    case (Cons c cs)
    consider (quote) "c = 0x22" | (escape) "c \<noteq> 0x22" "c = 0x5C" | (plain) "c \<noteq> 0x22" "c \<noteq> 0x5C"
      by blast
    then show ?thesis
    proof cases
      case quote
      with 1(2) Cons show ?thesis by simp
    next
      case plain
      with 1(2) Cons obtain y where "parse_chars cs = Some (y, r)"
        by (auto split: if_splits)
      from sub [OF this] Cons show ?thesis by simp
    next
      case escape
      with 1(2) Cons obtain t y where "parse_chars t = Some (y, r)" and "length t < length cs"
        by (auto split: if_splits list.splits option.splits)
      with sub [of t y] Cons show ?thesis by simp
    qed
  qed
qed

lemma lex_int_shorter: "lex_int s = Some (x, r) \<Longrightarrow> length r < length s"
  by (auto simp: lex_int_def less_Suc_eq_le length_dropWhile_le split: list.splits if_splits)

lemma lex_frac_shorter: "lex_frac s = Some (x, r) \<Longrightarrow> length r \<le> length s"
  by (auto simp: lex_frac_def le_SucI length_dropWhile_le split: list.splits if_splits)

lemma lex_sign_shorter: "lex_sign s = (x, r) \<Longrightarrow> length r \<le> length s"
  by (auto simp: lex_sign_def split: list.splits if_splits)

lemma lex_minus_shorter: "lex_minus s = (x, r) \<Longrightarrow> length r \<le> length s"
  by (auto simp: lex_minus_def split: list.splits if_splits)

lemma lex_exp_shorter: "lex_exp s = Some (x, r) \<Longrightarrow> length r \<le> length s"
proof (cases s)
  case Nil
  then show "lex_exp s = Some (x, r) \<Longrightarrow> ?thesis"
    by (simp add: lex_exp_def)
next
  case (Cons c cs)
  obtain sg t where sg: "lex_sign cs = (sg, t)"
    by (cases "lex_sign cs")
  have "length (dropWhile is_digit t) \<le> length cs"
    using lex_sign_shorter [OF sg] length_dropWhile_le [of is_digit t] by linarith
  then show "lex_exp s = Some (x, r) \<Longrightarrow> ?thesis"
    by (auto simp: lex_exp_def Cons sg split: if_splits)
qed

lemma parse_number_shorter: "parse_number s = Some (x, r) \<Longrightarrow> length r < length s"
proof -
  assume a: "parse_number s = Some (x, r)"
  obtain m s1 where m: "lex_minus s = (m, s1)"
    by (cases "lex_minus s")
  with a obtain i s2 where i: "lex_int s1 = Some (i, s2)"
    by (auto simp: parse_number_def split: option.splits)
  with a m obtain f s3 where f: "lex_frac s2 = Some (f, s3)"
    by (auto simp: parse_number_def split: option.splits)
  with a m i obtain e where e: "lex_exp s3 = Some (e, r)"
    by (auto simp: parse_number_def split: option.splits)
  show ?thesis
    using lex_minus_shorter [OF m] lex_int_shorter [OF i] lex_frac_shorter [OF f]
      lex_exp_shorter [OF e] by linarith
qed

lemma lex_literal_shorter: "w \<noteq> [] \<Longrightarrow> lex_literal w s = Some r \<Longrightarrow> length r < length s"
proof -
  assume w: "w \<noteq> []" and "lex_literal w s = Some r"
  then have t: "take (length w) s = w" and r: "r = drop (length w) s"
    by (auto simp: lex_literal_def split: if_splits)
  from arg_cong [OF t, of length] have "length w \<le> length s"
    by simp
  with w r show ?thesis
    by (cases w) auto
qed

lemma parse_value_atom:
  "skip_ws s = c # cs \<Longrightarrow> c \<noteq> 0x7B \<Longrightarrow> c \<noteq> 0x5B \<Longrightarrow>
   parse_value (Suc n) s = parse_value (Suc m) s"
  by simp

lemma parse_value_atom_shorter:
  assumes "skip_ws s = c # cs" and "c \<noteq> 0x7B" and "c \<noteq> 0x5B"
    and "parse_value (Suc n) s = Some (v, r)"
  shows "length r < length s"
proof -
  have s: "length (c # cs) \<le> length s"
    using length_skip_ws [of s] assms(1) by simp
  have lit: "length r < length s" if "lex_literal (js w) (c # cs) = Some r" "w \<noteq> []" for w
    using lex_literal_shorter [OF _ that(1)] that(2) s by (simp add: js_def)
  show ?thesis
  proof (cases "c = 0x22")
    case True
    with assms obtain x where "parse_chars cs = Some (x, r)"
      by (auto split: option.splits)
    from parse_chars_shorter [OF this] s show ?thesis
      by simp
  next
    case False
    consider (t) "c = 0x74" | (f) "c = 0x66" | (n) "c = 0x6E"
      | (num) "c \<noteq> 0x74" "c \<noteq> 0x66" "c \<noteq> 0x6E"
      by blast
    then show ?thesis
    proof cases
      case t
      with assms False have "lex_literal (js ''true'') (c # cs) = Some r"
        by auto
      then show ?thesis by (rule lit) simp
    next
      case f
      with assms False have "lex_literal (js ''false'') (c # cs) = Some r"
        by auto
      then show ?thesis by (rule lit) simp
    next
      case n
      with assms False have "lex_literal (js ''null'') (c # cs) = Some r"
        by auto
      then show ?thesis by (rule lit) simp
    next
      case num
      with assms False obtain x where "parse_number (c # cs) = Some (x, r)"
        by (auto split: option.splits)
      from parse_number_shorter [OF this] s show ?thesis
        by simp
    qed
  qed
qed

lemma parse_value_object_eq:
  "skip_ws s = c # cs \<Longrightarrow> c = 0x7B \<Longrightarrow>
   parse_value (Suc n) s =
     (case skip_ws cs of
        [] \<Rightarrow> None
      | d # ds \<Rightarrow>
          if d = 0x7D then Some (JObj [], ds)
          else
            (case parse_members n (d # ds) of
               None \<Rightarrow> None
             | Some (ms, r) \<Rightarrow> Some (JObj (define_members ms), r)))"
  by simp

lemma parse_value_array_eq:
  "skip_ws s = c # cs \<Longrightarrow> c = 0x5B \<Longrightarrow>
   parse_value (Suc n) s =
     (case skip_ws cs of
        [] \<Rightarrow> None
      | d # ds \<Rightarrow>
          if d = 0x5D then Some (JArr [], ds)
          else
            (case parse_elements n (d # ds) of
               None \<Rightarrow> None
             | Some (vs, r) \<Rightarrow> Some (JArr vs, r)))"
  by simp

lemma fuel_value_Suc:
  assumes "fuel_elements n" and "fuel_members n"
  shows "fuel_value (Suc n)"
  unfolding fuel_value_def
proof (intro allI impI)
  fix s v r
  assume eq: "parse_value (Suc n) s = Some (v, r)"
  then obtain c cs where sk: "skip_ws s = c # cs"
    by (cases "skip_ws s") auto
  have cs: "length cs < length s"
    using sk by (rule skip_ws_Cons_length)
  consider (obj) "c = 0x7B" | (arr) "c = 0x5B" | (atom) "c \<noteq> 0x7B" "c \<noteq> 0x5B"
    by blast
  then show "length r < length s \<and> (\<forall>m. 2 * (length s - length r) \<le> m \<longrightarrow> parse_value m s = Some (v, r))"
  proof cases
    case atom
    have short: "length r < length s"
      using sk atom eq by (rule parse_value_atom_shorter)
    have "parse_value m s = Some (v, r)" if "2 * (length s - length r) \<le> m" for m
    proof -
      from that short obtain m' where "m = Suc m'"
        by (cases m) auto
      then show ?thesis
        using parse_value_atom [OF sk atom, of m' n] eq by simp
    qed
    with short show ?thesis by blast
  next
    case obj
    note pv = parse_value_object_eq [OF sk obj]
    from eq obtain d ds where sk2: "skip_ws cs = d # ds"
      unfolding pv by (cases "skip_ws cs") auto
    have ds: "length (d # ds) \<le> length cs"
      using length_skip_ws [of cs] sk2 by simp
    show ?thesis
    proof (cases "d = 0x7D")
      case True
      with eq have res: "v = JObj []" "r = ds"
        unfolding pv sk2 by auto
      have short: "length r < length s"
        using res ds cs by simp
      have "parse_value m s = Some (v, r)" if "2 * (length s - length r) \<le> m" for m
      proof -
        from that short obtain m' where "m = Suc m'"
          by (cases m) auto
        then show ?thesis
          using parse_value_object_eq [OF sk obj, of m'] res True by (simp add: sk2)
      qed
      with short show ?thesis by blast
    next
      case False
      with eq obtain ms where pm: "parse_members n (d # ds) = Some (ms, r)"
        and res: "v = JObj (define_members ms)"
        unfolding pv sk2 by (auto split: option.splits)
      from assms(2) pm have short': "length r < length (d # ds)"
        and enough: "\<And>m. 2 * (length (d # ds) - length r) + 1 \<le> m \<Longrightarrow> parse_members m (d # ds) = Some (ms, r)"
        unfolding fuel_members_def by blast+
      have short: "length r < length s"
        using short' ds cs by simp
      have "parse_value m s = Some (v, r)" if "2 * (length s - length r) \<le> m" for m
      proof -
        from that short obtain m' where m: "m = Suc m'"
          by (cases m) auto
        have "2 * (length (d # ds) - length r) + 1 \<le> m'"
          using that m ds cs short' by simp
        from enough [OF this] show ?thesis
          using parse_value_object_eq [OF sk obj, of m'] res False by (simp add: sk2 m)
      qed
      with short show ?thesis by blast
    qed
  next
    case arr
    note pv = parse_value_array_eq [OF sk arr]
    from eq obtain d ds where sk2: "skip_ws cs = d # ds"
      unfolding pv by (cases "skip_ws cs") auto
    have ds: "length (d # ds) \<le> length cs"
      using length_skip_ws [of cs] sk2 by simp
    show ?thesis
    proof (cases "d = 0x5D")
      case True
      with eq have res: "v = JArr []" "r = ds"
        unfolding pv sk2 by auto
      have short: "length r < length s"
        using res ds cs by simp
      have "parse_value m s = Some (v, r)" if "2 * (length s - length r) \<le> m" for m
      proof -
        from that short obtain m' where "m = Suc m'"
          by (cases m) auto
        then show ?thesis
          using parse_value_array_eq [OF sk arr, of m'] res True by (simp add: sk2)
      qed
      with short show ?thesis by blast
    next
      case False
      with eq obtain vs where pe: "parse_elements n (d # ds) = Some (vs, r)"
        and res: "v = JArr vs"
        unfolding pv sk2 by (auto split: option.splits)
      from assms(1) pe have short': "length r < length (d # ds)"
        and enough: "\<And>m. 2 * (length (d # ds) - length r) + 1 \<le> m \<Longrightarrow> parse_elements m (d # ds) = Some (vs, r)"
        unfolding fuel_elements_def by blast+
      have short: "length r < length s"
        using short' ds cs by simp
      have "parse_value m s = Some (v, r)" if "2 * (length s - length r) \<le> m" for m
      proof -
        from that short obtain m' where m: "m = Suc m'"
          by (cases m) auto
        have "2 * (length (d # ds) - length r) + 1 \<le> m'"
          using that m ds cs short' by simp
        from enough [OF this] show ?thesis
          using parse_value_array_eq [OF sk arr, of m'] res False by (simp add: sk2 m)
      qed
      with short show ?thesis by blast
    qed
  qed
qed

lemma fuel_elements_Suc:
  assumes "fuel_value n" and "fuel_elements n"
  shows "fuel_elements (Suc n)"
  unfolding fuel_elements_def
proof (intro allI impI)
  fix s vs r
  assume eq: "parse_elements (Suc n) s = Some (vs, r)"
  then obtain v r1 where pv: "parse_value n s = Some (v, r1)"
    by (auto split: option.splits)
  with eq obtain c cs where sk: "skip_ws r1 = c # cs"
    by (cases "skip_ws r1") auto
  from assms(1) pv have r1: "length r1 < length s"
    and val_enough: "\<And>m. 2 * (length s - length r1) \<le> m \<Longrightarrow> parse_value m s = Some (v, r1)"
    unfolding fuel_value_def by blast+
  have cs: "length cs < length r1"
    using sk by (rule skip_ws_Cons_length)
  show "length r < length s \<and> (\<forall>m. 2 * (length s - length r) + 1 \<le> m \<longrightarrow> parse_elements m s = Some (vs, r))"
  proof (cases "c = 0x5D")
    case True
    with eq pv sk have res: "vs = [v]" "r = cs"
      by auto
    have short: "length r < length s"
      using res cs r1 by simp
    have "parse_elements m s = Some (vs, r)" if "2 * (length s - length r) + 1 \<le> m" for m
    proof -
      from that obtain m' where m: "m = Suc m'"
        by (cases m) auto
      have "2 * (length s - length r1) \<le> m'"
        using that m res cs r1 by simp
      from val_enough [OF this] show ?thesis
        using sk True res by (simp add: m)
    qed
    with short show ?thesis by blast
  next
    case False
    with eq pv sk have comma: "c = 0x2C"
      by (auto split: if_splits)
    with eq pv sk False obtain vs' where pe: "parse_elements n cs = Some (vs', r)"
      and res: "vs = v # vs'"
      by (auto split: option.splits)
    from assms(2) pe have short': "length r < length cs"
      and more: "\<And>m. 2 * (length cs - length r) + 1 \<le> m \<Longrightarrow> parse_elements m cs = Some (vs', r)"
      unfolding fuel_elements_def by blast+
    have short: "length r < length s"
      using short' cs r1 by simp
    have "parse_elements m s = Some (vs, r)" if "2 * (length s - length r) + 1 \<le> m" for m
    proof -
      from that obtain m' where m: "m = Suc m'"
        by (cases m) auto
      have "2 * (length s - length r1) \<le> m'" and "2 * (length cs - length r) + 1 \<le> m'"
        using that m short' cs r1 by simp_all
      from val_enough [OF this(1)] more [OF this(2)] show ?thesis
        using sk False comma res by (simp add: m)
    qed
    with short show ?thesis by blast
  qed
qed

lemma fuel_members_Suc:
  assumes "fuel_value n" and "fuel_members n"
  shows "fuel_members (Suc n)"
  unfolding fuel_members_def
proof (intro allI impI)
  fix s ms r
  assume eq: "parse_members (Suc n) s = Some (ms, r)"
  then obtain c cs where sk: "skip_ws s = c # cs"
    by (cases "skip_ws s") auto
  with eq have quote: "c = 0x22"
    by (auto split: if_splits)
  with eq sk obtain k r0 where key: "parse_chars cs = Some (k, r0)"
    by (auto split: option.splits)
  with eq sk quote obtain d ds where sk0: "skip_ws r0 = d # ds"
    by (cases "skip_ws r0") auto
  with eq sk quote key have colon: "d = 0x3A"
    by (auto split: if_splits)
  with eq sk quote key sk0 obtain v r2 where pv: "parse_value n ds = Some (v, r2)"
    by (auto split: option.splits)
  with eq sk quote key sk0 colon obtain e es where sk2: "skip_ws r2 = e # es"
    by (cases "skip_ws r2") auto
  note path = sk quote key sk0 colon
  have cs: "length cs < length s"
    using sk by (rule skip_ws_Cons_length)
  have r0: "length r0 < length cs"
    using key by (rule parse_chars_shorter)
  have ds: "length ds < length r0"
    using sk0 by (rule skip_ws_Cons_length)
  from assms(1) pv have r2: "length r2 < length ds"
    and val_enough: "\<And>m. 2 * (length ds - length r2) \<le> m \<Longrightarrow> parse_value m ds = Some (v, r2)"
    unfolding fuel_value_def by blast+
  have es: "length es < length r2"
    using sk2 by (rule skip_ws_Cons_length)
  show "length r < length s \<and> (\<forall>m. 2 * (length s - length r) + 1 \<le> m \<longrightarrow> parse_members m s = Some (ms, r))"
  proof (cases "e = 0x7D")
    case True
    with eq path pv sk2 have res: "ms = [(k, v)]" "r = es"
      by auto
    have short: "length r < length s"
      using res es r2 ds r0 cs by simp
    have "parse_members m s = Some (ms, r)" if "2 * (length s - length r) + 1 \<le> m" for m
    proof -
      from that obtain m' where m: "m = Suc m'"
        by (cases m) auto
      have "2 * (length ds - length r2) \<le> m'"
        using that m res es r2 ds r0 cs by simp
      from val_enough [OF this] show ?thesis
        using path sk2 True res by (simp add: m)
    qed
    with short show ?thesis by blast
  next
    case False
    with eq path pv sk2 have comma: "e = 0x2C"
      by (auto split: if_splits)
    with eq path pv sk2 False obtain ms' where pm: "parse_members n es = Some (ms', r)"
      and res: "ms = (k, v) # ms'"
      by (auto split: option.splits)
    from assms(2) pm have short': "length r < length es"
      and more: "\<And>m. 2 * (length es - length r) + 1 \<le> m \<Longrightarrow> parse_members m es = Some (ms', r)"
      unfolding fuel_members_def by blast+
    have short: "length r < length s"
      using short' es r2 ds r0 cs by simp
    have "parse_members m s = Some (ms, r)" if "2 * (length s - length r) + 1 \<le> m" for m
    proof -
      from that obtain m' where m: "m = Suc m'"
        by (cases m) auto
      have "2 * (length ds - length r2) \<le> m'" and "2 * (length es - length r) + 1 \<le> m'"
        using that m short' es r2 ds r0 cs by simp_all
      from val_enough [OF this(1)] more [OF this(2)] show ?thesis
        using path sk2 False comma res by (simp add: m)
    qed
    with short show ?thesis by blast
  qed
qed

lemma fuel_all: "fuel_value n \<and> fuel_elements n \<and> fuel_members n"
proof (induction n)
  case 0
  show ?case
    by (simp add: fuel_value_def fuel_elements_def fuel_members_def)
next
  case (Suc n)
  then show ?case
    by (simp add: fuel_value_Suc fuel_elements_Suc fuel_members_Suc)
qed

lemma parse_value_fuel:
  assumes "parse_value n s = Some (v, r)"
  shows "parse_value (2 * length s) s = Some (v, r)"
proof -
  from fuel_all [of n] assms
  have "\<forall>m. 2 * (length s - length r) \<le> m \<longrightarrow> parse_value m s = Some (v, r)"
    unfolding fuel_value_def by blast
  then show ?thesis
    by simp
qed

lemma JSON_parse_SyntaxError:
  "JSON_parse s = Inl e \<longleftrightarrow> (\<forall>n v r. parse_value n s = Some (v, r) \<longrightarrow> skip_ws r \<noteq> [])"
proof
  assume err: "JSON_parse s = Inl e"
  show "\<forall>n v r. parse_value n s = Some (v, r) \<longrightarrow> skip_ws r \<noteq> []"
  proof (intro allI impI)
    fix n v r
    assume "parse_value n s = Some (v, r)"
    then have "parse_value (2 * length s) s = Some (v, r)"
      by (rule parse_value_fuel)
    with err show "skip_ws r \<noteq> []"
      by (auto simp: JSON_parse_def split: if_splits)
  qed
next
  assume "\<forall>n v r. parse_value n s = Some (v, r) \<longrightarrow> skip_ws r \<noteq> []"
  then show "JSON_parse s = Inl e"
    by (cases e) (auto simp: JSON_parse_def split: option.splits)
qed

section \<open>Invariants of the store and the draft\<close>

lemma js_empty_iff: "js s = [] \<longleftrightarrow> s = []"
  by (simp add: js_def)

lemmas run_simps = run_v1_def run_v2_def step_v1_def step_v2_def common_step_def initial_v1_def
  initial_v2_def handleStationClick_def modalShown_def handleImageUpload_v1_def
  handleImageUpload_v2_def remove_nth_def onloadend_v1_def onload_v2_def uploaded_v2_def
  generateCaption_def getApiKey_v1_def getApiKey_v2_def truthy_def onloadend_v2_def
  generated_v1_def generated_v2_def setTempVisit_def saveEntry_def deleteEntry_def Let_def

lemma keyed_update: "keyed m \<Longrightarrow> stationCode v = k \<Longrightarrow> keyed (AList.update k v m)"
  by (induction m) (auto simp: keyed_def)

lemma keyed_delete: "keyed m \<Longrightarrow> keyed (AList.delete k m)"
  by (induction m) (auto simp: keyed_def)

lemma keyed_map_of: "keyed m \<Longrightarrow> map_of m k = Some v \<Longrightarrow> stationCode v = k"
  by (induction m) (auto simp: keyed_def split: if_splits)

lemma keyed_saveEntry: "keyed (visitMap s) \<Longrightarrow> keyed (visitMap (saveEntry stored s))"
  by (simp add: saveEntry_def Let_def keyed_update split: option.split)

lemma keyed_deleteEntry: "keyed (visitMap s) \<Longrightarrow> keyed (visitMap (deleteEntry stored s))"
  by (simp add: deleteEntry_def Let_def keyed_delete split: option.split prod.split)

lemma visitMap_setTempVisit [simp]: "visitMap (setTempVisit f s) = visitMap s"
  by (simp add: setTempVisit_def)

lemma selected_setTempVisit [simp]: "selectedStationData (setTempVisit f s) = selectedStationData s"
  by (simp add: setTempVisit_def)

lemma draft_setTempVisit:
  "draft_of_selection s \<Longrightarrow> (\<And>p. stationCode (f p) = stationCode p) \<Longrightarrow>
   draft_of_selection (setTempVisit f s)"
  by (auto simp: draft_of_selection_def setTempVisit_def split: option.splits)

lemma draft_of_selection_frame [simp]:
  "draft_of_selection (s\<lparr>visitMap := m\<rparr>) = draft_of_selection s"
  "draft_of_selection (s\<lparr>isModalOpen := b\<rparr>) = draft_of_selection s"
  "draft_of_selection (s\<lparr>localStorage := l\<rparr>) = draft_of_selection s"
  "draft_of_selection (s\<lparr>console := c\<rparr>) = draft_of_selection s"
  by (simp_all add: draft_of_selection_def cong: option.case_cong)

lemma draft_of_selection_frame_v1 [simp]:
  "draft_of_selection (s1\<lparr>isLoadingCaption := b\<rparr>) = draft_of_selection s1"
  "draft_of_selection (s1\<lparr>tasks_v1 := ts1\<rparr>) = draft_of_selection s1"
  by (simp_all add: draft_of_selection_def cong: option.case_cong)

lemma draft_of_selection_frame_v2 [simp]:
  "draft_of_selection (s2\<lparr>isUploading := b\<rparr>) = draft_of_selection s2"
  "draft_of_selection (s2\<lparr>isGeneratingCaption := b\<rparr>) = draft_of_selection s2"
  "draft_of_selection (s2\<lparr>tasks_v2 := ts2\<rparr>) = draft_of_selection s2"
  by (simp_all add: draft_of_selection_def cong: option.case_cong)

lemma draft_saveEntry: "draft_of_selection s \<Longrightarrow> draft_of_selection (saveEntry stored s)"
  by (simp add: saveEntry_def Let_def split: option.split)

lemma draft_deleteEntry: "draft_of_selection s \<Longrightarrow> draft_of_selection (deleteEntry stored s)"
  by (simp add: deleteEntry_def Let_def split: option.split prod.split)

lemma draft_handleStationClick:
  "keyed (visitMap s) \<Longrightarrow> draft_of_selection (handleStationClick station line today s)"
  by (auto simp: draft_of_selection_def handleStationClick_def dest: keyed_map_of split: option.splits)

lemma common_step_inv:
  assumes "keyed (visitMap s)" and "draft_of_selection s"
  shows "keyed (visitMap (common_step e s)) \<and> draft_of_selection (common_step e s)"
proof (cases e)
  case (StationClick station line today)
  then show ?thesis
    using assms(1) by (simp add: common_step_def draft_handleStationClick) (simp add: handleStationClick_def)
next
  case (ClickClear stored)
  then show ?thesis
    using assms by (simp add: common_step_def keyed_deleteEntry draft_deleteEntry)
qed (use assms in \<open>simp_all add: common_step_def draft_setTempVisit\<close>)

lemma onloadend_v1_inv:
  assumes "keyed (visitMap s)" and "draft_of_selection s"
  shows "keyed (visitMap (onloadend_v1 env f sel result s)) \<and> draft_of_selection (onloadend_v1 env f sel result s)"
  using assms by (simp add: onloadend_v1_def Let_def draft_setTempVisit split: option.split)

lemma generated_v1_inv:
  assumes "keyed (visitMap s)" and "draft_of_selection s"
  shows "keyed (visitMap (generated_v1 response s)) \<and> draft_of_selection (generated_v1 response s)"
  using assms by (simp add: generated_v1_def draft_setTempVisit split: option.split promise.split)

lemma step_v1_inv:
  assumes "keyed (visitMap s)" and "draft_of_selection s"
  shows "keyed (visitMap (step_v1 env e s)) \<and> draft_of_selection (step_v1 env e s)"
proof (cases e)
  case (ChooseFile chosen)
  then show ?thesis
    using assms by (simp add: step_v1_def handleImageUpload_v1_def split: option.split)
next
  case (ClickSave stored)
  then show ?thesis
    using assms by (simp add: step_v1_def keyed_saveEntry draft_saveEntry)
next
  case (ReaderDone i result)
  then show ?thesis
    using assms by (simp add: step_v1_def onloadend_v1_inv split: task_v1.split)
next
  case (GenerateDone i response)
  then show ?thesis
    using assms by (simp add: step_v1_def generated_v1_inv split: task_v1.split)
qed (use assms common_step_inv [of s e] in \<open>simp_all add: step_v1_def\<close>)

lemma run_v1_inv:
  "keyed (visitMap s) \<Longrightarrow> draft_of_selection s \<Longrightarrow>
   keyed (visitMap (run_v1 env es s)) \<and> draft_of_selection (run_v1 env es s)"
proof (induction es arbitrary: s)
  case Nil
  then show ?case by (simp add: run_v1_def)
next
  case (Cons e es)
  from step_v1_inv [OF Cons.prems, of env e]
  have "keyed (visitMap (run_v1 env es (step_v1 env e s))) \<and> draft_of_selection (run_v1 env es (step_v1 env e s))"
    using Cons.IH by blast
  then show ?case by (simp add: run_v1_def)
qed

lemma generateCaption_inv:
  assumes "keyed (visitMap s)" and "draft_of_selection s"
  shows "keyed (visitMap (generateCaption env f sel s)) \<and> draft_of_selection (generateCaption env f sel s)"
  using assms by (simp add: generateCaption_def split: option.split)

lemma uploaded_v2_inv:
  assumes "keyed (visitMap s)" and "draft_of_selection s"
  shows "keyed (visitMap (uploaded_v2 env f sel outcome s)) \<and> draft_of_selection (uploaded_v2 env f sel outcome s)"
  using assms generateCaption_inv [of "setTempVisit (\<lambda>prev. prev\<lparr>imageData := Some u\<rparr>) s" env f sel for u]
  by (simp add: uploaded_v2_def draft_setTempVisit split: promise.split)

lemma step_v2_inv:
  assumes "keyed (visitMap s)" and "draft_of_selection s"
  shows "keyed (visitMap (step_v2 env e s)) \<and> draft_of_selection (step_v2 env e s)"
proof (cases e)
  case (ChooseFile chosen)
  then show ?thesis
    using assms by (simp add: step_v2_def handleImageUpload_v2_def split: option.split)
next
  case (ClickSave stored)
  then show ?thesis
    using assms by (simp add: step_v2_def keyed_saveEntry draft_saveEntry)
next
  case (ReaderDone i result)
  then show ?thesis
    using assms
    by (simp add: step_v2_def onload_v2_def onloadend_v2_def draft_setTempVisit
        split: task_v2.split option.split)
next
  case (UploadDone i outcome)
  then show ?thesis
    using assms by (simp add: step_v2_def uploaded_v2_inv split: task_v2.split)
next
  case (GenerateDone i response)
  then show ?thesis
    using assms
    by (simp add: step_v2_def generated_v2_def draft_setTempVisit
        split: task_v2.split option.split promise.split)
qed (use assms common_step_inv [of s e] in \<open>simp_all add: step_v2_def\<close>)

lemma run_v2_inv:
  "keyed (visitMap s) \<Longrightarrow> draft_of_selection s \<Longrightarrow>
   keyed (visitMap (run_v2 env es s)) \<and> draft_of_selection (run_v2 env es s)"
proof (induction es arbitrary: s)
  case Nil
  then show ?case by (simp add: run_v2_def)
next
  case (Cons e es)
  from step_v2_inv [OF Cons.prems, of env e]
  have "keyed (visitMap (run_v2 env es (step_v2 env e s))) \<and> draft_of_selection (run_v2 env es (step_v2 env e s))"
    using Cons.IH by blast
  then show ?case by (simp add: run_v2_def)
qed

section \<open>The store: commit, removal and loading\<close>

lemma JSON_stringify_nonempty: "JSON_stringify m \<noteq> []"
  by (simp add: JSON_stringify_def)

lemma loadVisits_stringify:
  assumes "distinct (map fst m)" and "localStorage s = Some (JSON_stringify m)"
  shows "loadVisits s = Inr (s\<lparr>visitMap := m\<rparr>)"
  using assms
  by (simp add: loadVisits_def JSON_stringify_nonempty JSON_parse_stringify asVisitMap_toJSON)


lemma distinct_define_members: "distinct (map fst (define_members ms))"
proof -
  have "distinct (map fst acc) \<Longrightarrow>
      distinct (map fst (foldl (\<lambda>acc (k, v). AList.update k v acc) acc ms))" for acc
    by (induction ms arbitrary: acc) (auto simp: distinct_update)
  from this [of "[]"] show ?thesis
    by (simp add: define_members_def)
qed

lemma parse_value_distinct:
  assumes "parse_value n s = Some (JObj ms, r)"
  shows "distinct (map fst ms)"
proof (cases n)
  case 0
  with assms show ?thesis by simp
next
  case (Suc k)
  from assms obtain c cs where sk: "skip_ws s = c # cs"
    unfolding Suc by (cases "skip_ws s") auto
  show ?thesis
  proof (cases "c = 0x7B")
    case True
    from assms have "ms = [] \<or> (\<exists>ms'. ms = define_members ms')"
      unfolding Suc parse_value_object_eq [OF sk True]
      by (auto split: list.splits if_splits option.splits)
    then show ?thesis
      using distinct_define_members by auto
  next
    case False
    with assms sk show ?thesis
      unfolding Suc
      by (auto simp: map_option_case split: list.splits if_splits option.splits)
  qed
qed

lemma asEntries_keys: "asEntries ms = Some m \<Longrightarrow> map fst m = map fst ms"
proof (induction ms arbitrary: m)
  case Nil
  then show ?case by simp
next
  case (Cons a ms)
  obtain k j where a: "a = (k, j)" by (cases a)
  from Cons.prems obtain v m' where "asVisitLog j = Some v" "asEntries ms = Some m'" "m = (k, v) # m'"
    by (auto simp: a split: option.splits)
  with Cons.IH [of m'] show ?case
    by (simp add: a)
qed

text \<open>
  The load effect changes nothing but the store and the console, and a store it reads has
  no key twice.
\<close>

lemma loadVisits_frame:
  assumes "loadVisits s = Inr s'"
  shows "\<exists>m c. s' = s\<lparr>visitMap := m, console := c\<rparr>
     \<and> (c = console s \<or> c = console s @ [ConsoleError ''Error loading saved data''])
     \<and> (distinct (map fst (visitMap s)) \<longrightarrow> distinct (map fst m))"
proof (cases "localStorage s")
  case None
  with assms have "s' = s\<lparr>visitMap := visitMap s, console := console s\<rparr>"
    by (simp add: loadVisits_def)
  then show ?thesis by blast
next
  case (Some d)
  show ?thesis
  proof (cases "d = []")
    case True
    with assms Some have "s' = s\<lparr>visitMap := visitMap s, console := console s\<rparr>"
      by (simp add: loadVisits_def)
    then show ?thesis by blast
  next
    case False
    show ?thesis
    proof (cases "JSON_parse d")
      case (Inl e)
      with assms Some False
      have "s' = s\<lparr>visitMap := visitMap s, console := console s @ [ConsoleError ''Error loading saved data'']\<rparr>"
        by (simp add: loadVisits_def)
      then show ?thesis by blast
    next
      case (Inr j)
      with assms Some False obtain m where m: "asVisitMap j = Some m"
        and s': "s' = s\<lparr>visitMap := m, console := console s\<rparr>"
        by (auto simp: loadVisits_def split: option.splits)
      from m obtain ms where j: "j = JObj ms" and e: "asEntries ms = Some m"
        by (cases j) (auto simp: asVisitMap_def)
      from Inr j obtain r where "parse_value (2 * length d) d = Some (JObj ms, r)"
        by (auto simp: JSON_parse_def split: option.splits if_splits)
      then have "distinct (map fst ms)"
        by (rule parse_value_distinct)
      then have "distinct (map fst m)"
        using asEntries_keys [OF e] by simp
      with s' show ?thesis by blast
    qed
  qed
qed

lemma loadVisits_absent: "loadVisits (initial_v1 None) = Inr (initial_v1 None)"
  "loadVisits (initial_v2 None) = Inr (initial_v2 None)"
  by (simp_all add: loadVisits_def initial_v1_def initial_v2_def)

lemma mounted_v1:
  assumes "loadVisits (initial_v1 blob) = Inr s"
  shows "tempVisit s = None" and "tasks_v1 s = []" and "quiet_v1 s"
proof -
  from loadVisits_frame [OF assms] obtain m c where s: "s = (initial_v1 blob)\<lparr>visitMap := m, console := c\<rparr>"
    and c: "c = console (initial_v1 blob) \<or> c = console (initial_v1 blob) @ [ConsoleError ''Error loading saved data'']"
    by blast
  show "tempVisit s = None" "tasks_v1 s = []"
    by (simp_all add: s initial_v1_def)
  from c show "quiet_v1 s"
    by (auto simp: s quiet_v1_def initial_v1_def caption_error_def)
qed

lemma mounted_v2:
  assumes "loadVisits (initial_v2 blob) = Inr s"
  shows "draft_with_tasks s" and "quiet_v2 s"
proof -
  from loadVisits_frame [OF assms] obtain m c where s: "s = (initial_v2 blob)\<lparr>visitMap := m, console := c\<rparr>"
    and c: "c = console (initial_v2 blob) \<or> c = console (initial_v2 blob) @ [ConsoleError ''Error loading saved data'']"
    by blast
  show "draft_with_tasks s"
    by (simp add: s draft_with_tasks_def initial_v2_def)
  from c show "quiet_v2 s"
    by (auto simp: s quiet_v2_def initial_v2_def caption_error_def)
qed










text \<open>
  Claim C10. Starting from the empty store, after any sequence of inputs (saves and deletes
  among them), in either revision, every record in the store is kept under its own
  \<open>stationCode\<close>, and the draft, when there is one, carries the code of the selected
  station.
\<close>

theorem C10_store_keyed_by_stationCode:
  "(map_of (visitMap (run_v1 env es (initial_v1 blob))) c = Some v \<longrightarrow> stationCode v = c)
   \<and> draft_of_selection (run_v1 env es (initial_v1 blob))
   \<and> (map_of (visitMap (run_v2 env' es' (initial_v2 blob'))) c' = Some v' \<longrightarrow> stationCode v' = c')
   \<and> draft_of_selection (run_v2 env' es' (initial_v2 blob'))"
proof -
  have "keyed (visitMap (initial_v1 blob))" "draft_of_selection (initial_v1 blob)"
    "keyed (visitMap (initial_v2 blob'))" "draft_of_selection (initial_v2 blob')"
    by (simp_all add: initial_v1_def initial_v2_def keyed_def draft_of_selection_def)
  then have "keyed (visitMap (run_v1 env es (initial_v1 blob))) \<and> draft_of_selection (run_v1 env es (initial_v1 blob))"
    and "keyed (visitMap (run_v2 env' es' (initial_v2 blob'))) \<and> draft_of_selection (run_v2 env' es' (initial_v2 blob'))"
    using run_v1_inv run_v2_inv by blast+
  then show ?thesis
    using keyed_map_of by blast
qed

theorem C10_store_keyed_witness:
  "map_of (visitMap (run_v2 without_key [StationClick EW18 EWL (js ''2024-05-01''), ClickSave True]
       (initial_v2 None))) (js ''EW18'') = Some draft_EW18
   \<and> stationCode draft_EW18 = js ''EW18''"
proof -
  have "map_of (visitMap (run_v2 without_key [StationClick EW18 EWL (js ''2024-05-01''), ClickSave True]
       (initial_v2 None))) (js ''EW18'') = Some draft_EW18"
    by (simp add: run_v2_def step_v2_def common_step_def handleStationClick_def initial_v2_def
        modalShown_def saveEntry_def Let_def draft_EW18_def EW18_def)
  then show ?thesis
    using C10_store_keyed_by_stationCode
      [of without_key "[StationClick EW18 EWL (js ''2024-05-01''), ClickSave True]" None
        "js ''EW18''" draft_EW18]
    by blast
qed

section \<open>Progress\<close>

lemma totalStations_eq: "totalStations lines = length (concat (map stations lines))"
proof -
  have "foldl (\<lambda>sum line. sum + length (stations line)) n lines
      = n + length (concat (map stations lines))" for n
    by (induction lines arbitrary: n) simp_all
  then show ?thesis
    by (simp add: totalStations_def)
qed

lemma list_all_update: "list_all P m \<Longrightarrow> P (k, v) \<Longrightarrow> list_all P (AList.update k v m)"
  by (induction m) auto

lemma list_all_delete: "list_all P m \<Longrightarrow> list_all P (AList.delete k m)"
  by (induction m) auto

lemma list_all_map_of: "list_all P m \<Longrightarrow> map_of m k = Some v \<Longrightarrow> P (k, v)"
  by (induction m) (auto split: if_splits)

lemma catalogued_frame [simp]:
  "catalogued lines (s\<lparr>selectedStationData := d\<rparr>) = catalogued lines s"
  "catalogued lines (s\<lparr>isModalOpen := b\<rparr>) = catalogued lines s"
  "catalogued lines (s\<lparr>localStorage := l\<rparr>) = catalogued lines s"
  "catalogued lines (s\<lparr>console := c\<rparr>) = catalogued lines s"
  by (simp_all add: catalogued_def cong: option.case_cong)

lemma catalogued_frame_v1 [simp]:
  "catalogued lines (s1\<lparr>isLoadingCaption := b\<rparr>) = catalogued lines s1"
  "catalogued lines (s1\<lparr>tasks_v1 := ts1\<rparr>) = catalogued lines s1"
  by (simp_all add: catalogued_def cong: option.case_cong)

lemma catalogued_frame_v2 [simp]:
  "catalogued lines (s2\<lparr>isUploading := b\<rparr>) = catalogued lines s2"
  "catalogued lines (s2\<lparr>isGeneratingCaption := b\<rparr>) = catalogued lines s2"
  "catalogued lines (s2\<lparr>tasks_v2 := ts2\<rparr>) = catalogued lines s2"
  by (simp_all add: catalogued_def cong: option.case_cong)

lemma catalogued_setTempVisit:
  "catalogued lines s \<Longrightarrow> (\<And>p. stationCode (f p) = stationCode p) \<Longrightarrow>
   catalogued lines (setTempVisit f s)"
  by (auto simp: catalogued_def setTempVisit_def split: option.splits)

lemma catalogued_saveEntry: "catalogued lines s \<Longrightarrow> catalogued lines (saveEntry stored s)"
  by (auto simp: catalogued_def saveEntry_def Let_def distinct_update list_all_update
      split: option.splits)

lemma catalogued_deleteEntry: "catalogued lines s \<Longrightarrow> catalogued lines (deleteEntry stored s)"
  by (auto simp: catalogued_def deleteEntry_def Let_def distinct_delete list_all_delete
      split: option.splits)

lemma catalogued_handleStationClick:
  assumes "catalogued lines s" and "code station \<in> set (catalog_codes lines)"
  shows "catalogued lines (handleStationClick station line today s)"
proof (cases "map_of (visitMap s) (code station)")
  case None
  with assms show ?thesis
    by (simp add: catalogued_def handleStationClick_def)
next
  case (Some existing)
  from assms(1) have "list_all (\<lambda>(k, v). k \<in> set (catalog_codes lines) \<and> stationCode v \<in> set (catalog_codes lines))
      (visitMap s)"
    by (simp add: catalogued_def)
  from list_all_map_of [OF this Some] have "stationCode existing \<in> set (catalog_codes lines)"
    by simp
  with assms(1) Some show ?thesis
    by (simp add: catalogued_def handleStationClick_def)
qed

lemma catalogued_common_step:
  assumes "catalogued lines s" and "from_catalog lines e"
  shows "catalogued lines (common_step e s)"
proof (cases e)
  case (StationClick station line today)
  with assms show ?thesis
    by (simp add: common_step_def from_catalog_def catalogued_handleStationClick)
next
  case (ClickClear stored)
  with assms(1) show ?thesis
    by (simp add: common_step_def catalogued_deleteEntry)
qed (use assms(1) in \<open>simp_all add: common_step_def catalogued_setTempVisit\<close>)

lemma catalogued_step_v1:
  assumes "catalogued lines s" and "from_catalog lines e"
  shows "catalogued lines (step_v1 env e s)"
proof (cases e)
  case (ChooseFile chosen)
  with assms(1) show ?thesis
    by (simp add: step_v1_def handleImageUpload_v1_def split: option.split)
next
  case (ClickSave stored)
  with assms(1) show ?thesis
    by (simp add: step_v1_def catalogued_saveEntry)
next
  case (ReaderDone i result)
  with assms(1) show ?thesis
    by (simp add: step_v1_def onloadend_v1_def Let_def catalogued_setTempVisit
        split: task_v1.split option.split)
next
  case (GenerateDone i response)
  with assms(1) show ?thesis
    by (simp add: step_v1_def generated_v1_def catalogued_setTempVisit
        split: task_v1.split option.split promise.split)
qed (use assms catalogued_common_step [of lines s e] in \<open>simp_all add: step_v1_def\<close>)

lemma catalogued_generateCaption:
  "catalogued lines s \<Longrightarrow> catalogued lines (generateCaption env chosen selected s)"
  by (simp add: generateCaption_def split: option.split)

lemma catalogued_step_v2:
  assumes "catalogued lines s" and "from_catalog lines e"
  shows "catalogued lines (step_v2 env e s)"
proof (cases e)
  case (ChooseFile chosen)
  with assms(1) show ?thesis
    by (simp add: step_v2_def handleImageUpload_v2_def split: option.split)
next
  case (ClickSave stored)
  with assms(1) show ?thesis
    by (simp add: step_v2_def catalogued_saveEntry)
next
  case (ReaderDone i result)
  with assms(1) show ?thesis
    by (simp add: step_v2_def onload_v2_def onloadend_v2_def catalogued_setTempVisit
        split: task_v2.split option.split)
next
  case (UploadDone i outcome)
  with assms(1) show ?thesis
    by (simp add: step_v2_def uploaded_v2_def catalogued_generateCaption catalogued_setTempVisit
        split: task_v2.split promise.split)
next
  case (GenerateDone i response)
  with assms(1) show ?thesis
    by (simp add: step_v2_def generated_v2_def catalogued_setTempVisit
        split: task_v2.split option.split promise.split)
qed (use assms catalogued_common_step [of lines s e] in \<open>simp_all add: step_v2_def\<close>)

lemma catalogued_run_v1:
  "catalogued lines s \<Longrightarrow> list_all (from_catalog lines) es \<Longrightarrow> catalogued lines (run_v1 env es s)"
  unfolding run_v1_def by (induction es arbitrary: s) (simp_all add: catalogued_step_v1)

lemma catalogued_run_v2:
  "catalogued lines s \<Longrightarrow> list_all (from_catalog lines) es \<Longrightarrow> catalogued lines (run_v2 env es s)"
  unfolding run_v2_def by (induction es arbitrary: s) (simp_all add: catalogued_step_v2)

lemma catalogued_keys:
  "catalogued lines s \<Longrightarrow>
   distinct (map fst (visitMap s)) \<and> set (map fst (visitMap s)) \<subseteq> set (catalog_codes lines)"
  by (auto simp: catalogued_def list_all_iff)

lemma progress_of_catalog_store:
  assumes "distinct (map fst m)" and "set (map fst m) \<subseteq> set (catalog_codes lines)"
  shows "totalVisited m = spec_visitedCount m lines \<and> totalVisited m \<le> totalStations lines"
proof -
  have "filter (\<lambda>k. k \<in> set (catalog_codes lines)) (map fst m) = map fst m"
    using assms(2) by (auto simp: filter_id_conv)
  then have same: "totalVisited m = spec_visitedCount m lines"
    by (simp add: totalVisited_def spec_visitedCount_def)
  have "length (map fst m) = card (set (map fst m))"
    using assms(1) by (simp only: distinct_card)
  also have "\<dots> \<le> card (set (catalog_codes lines))"
    using assms(2) by (intro card_mono) simp_all
  also have "\<dots> \<le> length (catalog_codes lines)"
    by (rule card_length)
  also have "\<dots> = totalStations lines"
    by (simp add: catalog_codes_def totalStations_eq)
  finally have "totalVisited m \<le> totalStations lines"
    by (simp add: totalVisited_def)
  with same show ?thesis
    by simp
qed

text \<open>
  Claim C6, as stated, fails. \<open>totalVisited\<close> is the number of keys of the store,
  whatever they name. A store read back from \<open>localStorage\<close> with records for EW18,
  TE1 and TE2, under a catalogue of the two stations EW18 and NS1, has a visited count of 3:
  more than the total of 2, and not the single key that matches a station of the catalogue.
\<close>

theorem C6_counterexample:
  "loadVisits (initial_v2 (Some (JSON_stringify stale_store)))
     = Inr ((initial_v2 (Some (JSON_stringify stale_store)))\<lparr>visitMap := stale_store\<rparr>)
   \<and> totalVisited stale_store = 3
   \<and> spec_visitedCount stale_store (MRT_LINES with_key) = 1
   \<and> totalStations (MRT_LINES with_key) = 2"
proof -
  have "distinct (map fst stale_store)"
    by (simp add: stale_store_def js_eq_iff)
  then have "loadVisits (initial_v2 (Some (JSON_stringify stale_store)))
     = Inr ((initial_v2 (Some (JSON_stringify stale_store)))\<lparr>visitMap := stale_store\<rparr>)"
    by (rule loadVisits_stringify) (simp add: initial_v2_def)
  moreover have "totalVisited stale_store = 3"
    by (simp add: totalVisited_def stale_store_def)
  moreover have "spec_visitedCount stale_store (MRT_LINES with_key) = 1"
    by (simp add: spec_visitedCount_def catalog_codes_def stale_store_def with_key_def EWL_def
        NSL_def EW18_def NS1_def js_eq_iff)
  moreover have "totalStations (MRT_LINES with_key) = 2"
    by (simp add: totalStations_def with_key_def EWL_def NSL_def)
  ultimately show ?thesis
    by blast
qed

text \<open>
  Claim C6, amended. The visited count is the number of keys of the store. For a store whose
  every key is the code of a station of the catalogue, it equals the number of keys that
  match a station of the catalogue and does not exceed the total count, the number of
  stations over all lines. Every store that either revision builds from the empty store,
  by any inputs whose clicks are on stations of the catalogue, is such a store.
\<close>

theorem C6_progress_of_catalog_stores:
  assumes "distinct (map fst m)" and "set (map fst m) \<subseteq> set (catalog_codes lines)"
    and "list_all (from_catalog lines) es1" and "list_all (from_catalog lines) es2"
  shows "totalVisited m = length m
     \<and> totalVisited m = spec_visitedCount m lines
     \<and> totalVisited m \<le> totalStations lines
     \<and> totalVisited (visitMap (run_v1 env es1 (initial_v1 blob1)))
         = spec_visitedCount (visitMap (run_v1 env es1 (initial_v1 blob1))) lines
     \<and> totalVisited (visitMap (run_v1 env es1 (initial_v1 blob1))) \<le> totalStations lines
     \<and> totalVisited (visitMap (run_v2 env es2 (initial_v2 blob2)))
         = spec_visitedCount (visitMap (run_v2 env es2 (initial_v2 blob2))) lines
     \<and> totalVisited (visitMap (run_v2 env es2 (initial_v2 blob2))) \<le> totalStations lines"
proof -
  let ?m1 = "visitMap (run_v1 env es1 (initial_v1 blob1))"
  let ?m2 = "visitMap (run_v2 env es2 (initial_v2 blob2))"
  have "catalogued lines (initial_v1 blob1)" "catalogued lines (initial_v2 blob2)"
    by (simp_all add: catalogued_def initial_v1_def initial_v2_def)
  then have "catalogued lines (run_v1 env es1 (initial_v1 blob1))"
    and "catalogued lines (run_v2 env es2 (initial_v2 blob2))"
    using assms(3,4) by (simp_all add: catalogued_run_v1 catalogued_run_v2)
  then have k1: "distinct (map fst ?m1)" "set (map fst ?m1) \<subseteq> set (catalog_codes lines)"
    and k2: "distinct (map fst ?m2)" "set (map fst ?m2) \<subseteq> set (catalog_codes lines)"
    using catalogued_keys by blast+
  have "totalVisited m = length m"
    by (simp add: totalVisited_def)
  then show ?thesis
    using progress_of_catalog_store [OF assms(1,2)] progress_of_catalog_store [OF k1]
      progress_of_catalog_store [OF k2]
    by blast
qed

theorem C6_progress_witness:
  "distinct (map fst [(js ''EW18'', draft_EW18)])
   \<and> set (map fst [(js ''EW18'', draft_EW18)]) \<subseteq> set (catalog_codes (MRT_LINES with_key))
   \<and> list_all (from_catalog (MRT_LINES with_key)) [StationClick EW18 EWL (js ''2024-05-01''), ClickSave True]
   \<and> visitMap (run_v2 with_key [StationClick EW18 EWL (js ''2024-05-01''), ClickSave True] (initial_v2 None))
       = [(js ''EW18'', draft_EW18)]
   \<and> totalVisited [(js ''EW18'', draft_EW18)] = 1
   \<and> spec_visitedCount [(js ''EW18'', draft_EW18)] (MRT_LINES with_key) = 1
   \<and> totalVisited [(js ''EW18'', draft_EW18)] \<le> totalStations (MRT_LINES with_key)"
proof -
  let ?es = "[StationClick EW18 EWL (js ''2024-05-01''), ClickSave True]"
  have d: "distinct (map fst [(js ''EW18'', draft_EW18)])"
    by simp
  have sub: "set (map fst [(js ''EW18'', draft_EW18)]) \<subseteq> set (catalog_codes (MRT_LINES with_key))"
    by (simp add: catalog_codes_def with_key_def EWL_def NSL_def EW18_def)
  have es: "list_all (from_catalog (MRT_LINES with_key)) ?es"
    by (simp add: from_catalog_def catalog_codes_def with_key_def EWL_def NSL_def EW18_def)
  have saved: "visitMap (run_v2 with_key ?es (initial_v2 None)) = [(js ''EW18'', draft_EW18)]"
    by (simp add: run_simps draft_EW18_def EW18_def)
  from C6_progress_of_catalog_stores [OF d sub es es, of with_key None None] d sub es saved
  show ?thesis
    by simp
qed

section \<open>The draft and the asynchronous results\<close>

lemma step_v1_ReaderDone:
  "i < length (tasks_v1 s) \<Longrightarrow> tasks_v1 s ! i = Reading_v1 file selected \<Longrightarrow>
   step_v1 env (ReaderDone i result) s
     = onloadend_v1 env file selected result (s\<lparr>tasks_v1 := remove_nth i (tasks_v1 s)\<rparr>)"
  by (simp add: step_v1_def)

lemma step_v1_GenerateDone:
  "i < length (tasks_v1 s) \<Longrightarrow> tasks_v1 s ! i = Generating_v1 request \<Longrightarrow>
   step_v1 env (GenerateDone i response) s
     = generated_v1 response (s\<lparr>tasks_v1 := remove_nth i (tasks_v1 s)\<rparr>)"
  by (simp add: step_v1_def)

lemma step_v2_Preview:
  "i < length (tasks_v2 s) \<Longrightarrow> tasks_v2 s ! i = Preview_v2 file \<Longrightarrow>
   step_v2 env (ReaderDone i result) s
     = onload_v2 result (s\<lparr>tasks_v2 := remove_nth i (tasks_v2 s)\<rparr>)"
  by (simp add: step_v2_def)


lemma step_v2_UploadDone:
  "i < length (tasks_v2 s) \<Longrightarrow> tasks_v2 s ! i = Uploading_v2 file selected \<Longrightarrow>
   step_v2 env (UploadDone i outcome) s
     = uploaded_v2 env file selected outcome (s\<lparr>tasks_v2 := remove_nth i (tasks_v2 s)\<rparr>)"
  by (simp add: step_v2_def)

lemma step_v2_GenerateDone:
  "i < length (tasks_v2 s) \<Longrightarrow> tasks_v2 s ! i = Generating_v2 request \<Longrightarrow>
   step_v2 env (GenerateDone i response) s
     = generated_v2 response (s\<lparr>tasks_v2 := remove_nth i (tasks_v2 s)\<rparr>)"
  by (simp add: step_v2_def)

lemma tempVisit_generateCaption: "tempVisit (generateCaption env file selected s) = tempVisit s"
  by (simp add: generateCaption_def split: option.split)

lemma tempVisit_setTempVisit: "tempVisit s = Some draft \<Longrightarrow> tempVisit (setTempVisit f s) = Some (f draft)"
  by (simp add: setTempVisit_def)

lemma run_v1_snoc: "run_v1 env (es @ [e]) s = step_v1 env e (run_v1 env es s)"
  by (simp add: run_v1_def)

lemma run_v2_snoc: "run_v2 env (es @ [e]) s = step_v2 env e (run_v2 env es s)"
  by (simp add: run_v2_def)

lemma trim_example: "trim (js '' A quiet platform. '') = js ''A quiet platform.''"
  by (simp add: trim_def is_WhiteSpace_def js_def)

lemma typed_v1:
  "run_v1 with_key (attach_v1 @ [ChangeCaption (js ''mine'')]) (initial_v1 None) =
     \<lparr>visitMap = [], selectedStationData = Some (EW18, EWL), isModalOpen = True,
      tempVisit = Some (draft_EW18\<lparr>imageData := Some (js ''data:image/png;base64,iVBORw''),
                                  caption := Some (js ''mine'')\<rparr>),
      localStorage = None, console = [], isLoadingCaption = True,
      tasks_v1 = [Generating_v1 (generateContentParameters photo (js ''data:image/png;base64,iVBORw'') (Some (EW18, EWL)))]\<rparr>"
  by (simp add: run_simps attach_v1_def with_key_def draft_EW18_def EW18_def js_empty_iff)

lemma typed_v2:
  "run_v2 with_key (attach_v2 @ [ChangeCaption (js ''mine'')]) (initial_v2 None) =
     \<lparr>visitMap = [], selectedStationData = Some (EW18, EWL), isModalOpen = True,
      tempVisit = Some (draft_EW18\<lparr>imageData := Some (js ''https://res.cloudinary.com/demo/image/upload/a.png''),
                                  caption := Some (js ''mine'')\<rparr>),
      localStorage = None, console = [], isUploading = False, isGeneratingCaption = True,
      tasks_v2 = [Generating_v2 (generateContentParameters photo (js ''data:image/png;base64,iVBORw'') (Some (EW18, EWL)))]\<rparr>"
  by (simp add: run_simps attach_v2_def with_key_def draft_EW18_def EW18_def js_empty_iff)

lemma switched_v2:
  "run_v2 with_key switch_v2 (initial_v2 None) =
     \<lparr>visitMap = [], selectedStationData = Some (NS1, NSL), isModalOpen = True,
      tempVisit = Some draft_NS1, localStorage = None, console = [], isUploading = True,
      isGeneratingCaption = False,
      tasks_v2 = [Preview_v2 photo, Uploading_v2 photo (Some (EW18, EWL))]\<rparr>"
  by (simp add: run_simps switch_v2_def draft_NS1_def EW18_def NS1_def)



text \<open>
  Claim C2, as stated, fails in both revisions. The user chooses an image for EW18, the caption
  request starts, the user types \<open>mine\<close>, and the generated text arrives: the caption
  of the draft is then the generated text, trimmed, and no longer what the user typed.
\<close>

theorem C2_counterexample:
  "map_option caption (tempVisit (run_v1 with_key (attach_v1 @ [ChangeCaption (js ''mine'')]) (initial_v1 None)))
     = Some (Some (js ''mine''))
   \<and> map_option caption (tempVisit (run_v1 with_key
         ((attach_v1 @ [ChangeCaption (js ''mine'')])
            @ [GenerateDone 0 (Fulfilled (Some (js '' A quiet platform. '')))]) (initial_v1 None)))
     = Some (Some (js ''A quiet platform.''))
   \<and> map_option caption (tempVisit (run_v2 with_key (attach_v2 @ [ChangeCaption (js ''mine'')]) (initial_v2 None)))
     = Some (Some (js ''mine''))
   \<and> map_option caption (tempVisit (run_v2 with_key
         ((attach_v2 @ [ChangeCaption (js ''mine'')])
            @ [GenerateDone 0 (Fulfilled (Some (js '' A quiet platform. '')))]) (initial_v2 None)))
     = Some (Some (js ''A quiet platform.''))"
  unfolding run_v1_snoc [of _ "attach_v1 @ [ChangeCaption (js ''mine'')]"]
    run_v2_snoc [of _ "attach_v2 @ [ChangeCaption (js ''mine'')]"] typed_v1 typed_v2
  by (simp add: step_v1_def step_v2_def remove_nth_def generated_v1_def generated_v2_def
      setTempVisit_def trim_example)

text \<open>
  Claim C2, amended. When the generated text of a caption request arrives while there is a
  draft, the caption of the draft becomes that text, trimmed, whatever caption the draft held
  and whenever it was typed; the component keeps no record of the user's edits.
\<close>

theorem C2_generated_caption_replaces_typed:
  assumes "i < length (tasks_v1 s1)" and "tasks_v1 s1 ! i = Generating_v1 request1"
    and "tempVisit s1 = Some draft1"
    and "j < length (tasks_v2 s2)" and "tasks_v2 s2 ! j = Generating_v2 request2"
    and "tempVisit s2 = Some draft2"
  shows "tempVisit (step_v1 env (GenerateDone i (Fulfilled (Some text))) s1)
       = Some (draft1\<lparr>caption := Some (trim text)\<rparr>)
     \<and> tempVisit (step_v2 env (GenerateDone j (Fulfilled (Some text))) s2)
       = Some (draft2\<lparr>caption := Some (trim text)\<rparr>)"
  using assms
  by (simp add: step_v1_GenerateDone step_v2_GenerateDone generated_v1_def generated_v2_def
      tempVisit_setTempVisit)

theorem C2_generated_caption_witness:
  "tempVisit (step_v1 with_key (GenerateDone 0 (Fulfilled (Some (js '' A quiet platform. ''))))
       (run_v1 with_key (attach_v1 @ [ChangeCaption (js ''mine'')]) (initial_v1 None)))
     = Some (draft_EW18\<lparr>imageData := Some (js ''data:image/png;base64,iVBORw''),
                         caption := Some (js ''A quiet platform.'')\<rparr>)
   \<and> tempVisit (step_v2 with_key (GenerateDone 0 (Fulfilled (Some (js '' A quiet platform. ''))))
       (run_v2 with_key (attach_v2 @ [ChangeCaption (js ''mine'')]) (initial_v2 None)))
     = Some (draft_EW18\<lparr>imageData := Some (js ''https://res.cloudinary.com/demo/image/upload/a.png''),
                         caption := Some (js ''A quiet platform.'')\<rparr>)"
proof -
  let ?s1 = "run_v1 with_key (attach_v1 @ [ChangeCaption (js ''mine'')]) (initial_v1 None)"
  let ?s2 = "run_v2 with_key (attach_v2 @ [ChangeCaption (js ''mine'')]) (initial_v2 None)"
  have a: "0 < length (tasks_v1 ?s1)"
    and b: "tasks_v1 ?s1 ! 0 = Generating_v1 (generateContentParameters photo (js ''data:image/png;base64,iVBORw'') (Some (EW18, EWL)))"
    and c: "tempVisit ?s1 = Some (draft_EW18\<lparr>imageData := Some (js ''data:image/png;base64,iVBORw''), caption := Some (js ''mine'')\<rparr>)"
    by (simp_all add: typed_v1)
  have d: "0 < length (tasks_v2 ?s2)"
    and e: "tasks_v2 ?s2 ! 0 = Generating_v2 (generateContentParameters photo (js ''data:image/png;base64,iVBORw'') (Some (EW18, EWL)))"
    and f: "tempVisit ?s2 = Some (draft_EW18\<lparr>imageData := Some (js ''https://res.cloudinary.com/demo/image/upload/a.png''), caption := Some (js ''mine'')\<rparr>)"
    by (simp_all add: typed_v2)
  from C2_generated_caption_replaces_typed [OF a b c d e f, of with_key "js '' A quiet platform. ''"]
  show ?thesis
    by (simp add: trim_example)
qed

lemma draft_with_tasks_Some: "tempVisit s \<noteq> None \<Longrightarrow> draft_with_tasks s"
  by (auto simp: draft_with_tasks_def)

lemma draft_with_tasks_length: "draft_with_tasks s \<Longrightarrow> i < length (tasks_v2 s) \<Longrightarrow> tempVisit s \<noteq> None"
  by (auto simp: draft_with_tasks_def split: option.splits)

lemma tempVisit_common_step: "tempVisit s \<noteq> None \<Longrightarrow> tempVisit (common_step e s) \<noteq> None"
  by (cases e)
    (auto simp: common_step_def handleStationClick_def setTempVisit_def deleteEntry_def Let_def
      split: option.splits)

lemma tasks_common_step: "tasks_v2 (common_step e s) = tasks_v2 s"
  by (cases e)
    (auto simp: common_step_def handleStationClick_def setTempVisit_def deleteEntry_def Let_def
      split: option.splits)

lemma tempVisit_step_v2:
  assumes "tempVisit s \<noteq> None"
  shows "tempVisit (step_v2 env e s) \<noteq> None"
proof (cases e)
  case (ChooseFile chosen)
  then show ?thesis
    using assms by (auto simp: step_v2_def handleImageUpload_v2_def split: option.splits)
next
  case (ClickSave stored)
  then show ?thesis
    using assms by (auto simp: step_v2_def saveEntry_def Let_def split: option.splits)
next
  case (ReaderDone i result)
  then show ?thesis
    using assms
    by (auto simp: step_v2_def onload_v2_def onloadend_v2_def setTempVisit_def
        split: option.splits task_v2.splits)
next
  case (UploadDone i outcome)
  then show ?thesis
    using assms
    by (auto simp: step_v2_def uploaded_v2_def tempVisit_generateCaption setTempVisit_def
        split: option.splits task_v2.splits promise.splits)
next
  case (GenerateDone i response)
  then show ?thesis
    using assms
    by (auto simp: step_v2_def generated_v2_def setTempVisit_def
        split: option.splits task_v2.splits promise.splits)
qed (use assms tempVisit_common_step [of s e] in \<open>simp_all add: step_v2_def\<close>)

lemma draft_with_tasks_step: "draft_with_tasks s \<Longrightarrow> draft_with_tasks (step_v2 env e s)"
proof (cases "tempVisit s")
  case None
  assume "draft_with_tasks s"
  with None have empty: "tasks_v2 s = []"
    by (simp add: draft_with_tasks_def)
  show ?thesis
  proof (cases e)
    case (ChooseFile chosen)
    then show ?thesis
      using None empty
      by (simp add: step_v2_def handleImageUpload_v2_def draft_with_tasks_def split: option.split)
  next
    case (ClickSave stored)
    then show ?thesis
      using None empty by (simp add: step_v2_def saveEntry_def draft_with_tasks_def)
  next
    case (ReaderDone i result)
    then show ?thesis
      using None empty by (simp add: step_v2_def draft_with_tasks_def)
  next
    case (UploadDone i outcome)
    then show ?thesis
      using None empty by (simp add: step_v2_def draft_with_tasks_def)
  next
    case (GenerateDone i response)
    then show ?thesis
      using None empty by (simp add: step_v2_def draft_with_tasks_def)
  qed (use empty tasks_common_step [of e s] in
      \<open>auto simp: step_v2_def draft_with_tasks_def split: option.splits\<close>)
next
  case (Some draft)
  then show ?thesis
    using tempVisit_step_v2 [of s env e] by (simp add: draft_with_tasks_Some)
qed

lemma draft_with_tasks_run: "draft_with_tasks s \<Longrightarrow> draft_with_tasks (run_v2 env es s)"
  unfolding run_v2_def by (induction es arbitrary: s) (simp_all add: draft_with_tasks_step)

text \<open>
  Claim C3, as stated, fails. The user chooses an image for EW18, closes the modal and opens
  NS1 while the upload is in flight. The URL of the upload becomes the image of the NS1 draft,
  and the caption generated for the EW18 image becomes its caption.
\<close>

theorem C3_counterexample:
  "selectedStationData (run_v2 with_key switch_v2 (initial_v2 None)) = Some (NS1, NSL)
   \<and> tempVisit (run_v2 with_key switch_v2 (initial_v2 None)) = Some draft_NS1
   \<and> tasks_v2 (run_v2 with_key switch_v2 (initial_v2 None))
       = [Preview_v2 photo, Uploading_v2 photo (Some (EW18, EWL))]
   \<and> tempVisit (run_v2 with_key
         (switch_v2 @ [UploadDone 1 (Fulfilled (js ''https://res.cloudinary.com/demo/image/upload/a.png''))])
         (initial_v2 None))
       = Some (draft_NS1\<lparr>imageData := Some (js ''https://res.cloudinary.com/demo/image/upload/a.png'')\<rparr>)
   \<and> tempVisit (run_v2 with_key
         (((switch_v2 @ [UploadDone 1 (Fulfilled (js ''https://res.cloudinary.com/demo/image/upload/a.png''))])
            @ [ReaderDone 1 (Some (js ''data:image/png;base64,iVBORw''))])
            @ [GenerateDone 1 (Fulfilled (Some (js '' A quiet platform. '')))])
         (initial_v2 None))
       = Some (draft_NS1\<lparr>imageData := Some (js ''https://res.cloudinary.com/demo/image/upload/a.png''),
                          caption := Some (js ''A quiet platform.'')\<rparr>)"
  unfolding run_v2_snoc switched_v2
  by (simp add: step_v2_def remove_nth_def uploaded_v2_def generateCaption_def getApiKey_v2_def
      with_key_def onloadend_v2_def generated_v2_def setTempVisit_def trim_example js_empty_iff)

text \<open>
  Claim C3, amended. In every state revision 2 reaches after loading the saved visits, a task
  in flight has a draft to write to, and its result is written to that draft, the current
  one, whichever station it is for: the data URL of the preview and the URL of the upload as
  \<open>imageData\<close>, the generated text as \<open>caption\<close>. The station captured with
  the task plays no part.
\<close>

theorem C3_result_applies_to_current_draft:
  assumes "loadVisits (initial_v2 blob) = Inr s0" and "s = run_v2 env es s0"
    and "i < length (tasks_v2 s)"
  shows "\<exists>draft. tempVisit s = Some draft
     \<and> (\<forall>chosen result. tasks_v2 s ! i = Preview_v2 chosen \<longrightarrow>
           tempVisit (step_v2 env (ReaderDone i (Some result)) s)
             = Some (draft\<lparr>imageData := Some result\<rparr>))
     \<and> (\<forall>chosen selected cloudUrl. tasks_v2 s ! i = Uploading_v2 chosen selected \<longrightarrow>
           tempVisit (step_v2 env (UploadDone i (Fulfilled cloudUrl)) s)
             = Some (draft\<lparr>imageData := Some cloudUrl\<rparr>))
     \<and> (\<forall>request text. tasks_v2 s ! i = Generating_v2 request \<longrightarrow>
           tempVisit (step_v2 env (GenerateDone i (Fulfilled (Some text))) s)
             = Some (draft\<lparr>caption := Some (trim text)\<rparr>))"
proof -
  have "draft_with_tasks s0"
    using assms(1) by (rule mounted_v2)
  then have "draft_with_tasks s"
    unfolding assms(2) by (rule draft_with_tasks_run)
  then obtain draft where draft: "tempVisit s = Some draft"
    using draft_with_tasks_length [OF _ assms(3)] by blast
  then show ?thesis
    using assms(3)
    by (simp add: step_v2_Preview step_v2_UploadDone step_v2_GenerateDone onload_v2_def
        uploaded_v2_def generated_v2_def tempVisit_generateCaption tempVisit_setTempVisit)
qed

theorem C3_result_witness:
  "tempVisit (run_v2 with_key switch_v2 (initial_v2 None)) = Some draft_NS1
   \<and> tasks_v2 (run_v2 with_key switch_v2 (initial_v2 None)) ! 1 = Uploading_v2 photo (Some (EW18, EWL))
   \<and> tempVisit (step_v2 with_key (UploadDone 1 (Fulfilled (js ''https://res.cloudinary.com/demo/image/upload/a.png'')))
        (run_v2 with_key switch_v2 (initial_v2 None)))
       = Some (draft_NS1\<lparr>imageData := Some (js ''https://res.cloudinary.com/demo/image/upload/a.png'')\<rparr>)"
proof -
  let ?s = "run_v2 with_key switch_v2 (initial_v2 None)"
  have len: "1 < length (tasks_v2 ?s)"
    and task: "tasks_v2 ?s ! 1 = Uploading_v2 photo (Some (EW18, EWL))"
    and draft: "tempVisit ?s = Some draft_NS1"
    by (simp_all add: switched_v2)
  from C3_result_applies_to_current_draft [OF loadVisits_absent(2) refl len] task draft
  show ?thesis
    by auto
qed







lemma list_all_remove_nth: "list_all P xs \<Longrightarrow> list_all P (remove_nth i xs)"
  unfolding remove_nth_def list_all_iff
  by (auto dest: in_set_takeD in_set_dropD)

lemma list_all_nth: "list_all P xs \<Longrightarrow> i < length xs \<Longrightarrow> P (xs ! i)"
  by (simp add: list_all_length)

lemma console_saveEntry:
  "console (saveEntry stored s) = console s
   \<or> console (saveEntry stored s) = console s @ [Uncaught ''QuotaExceededError'']"
  by (simp add: saveEntry_def Let_def split: option.split)

lemma quota_no_caption_error: "\<not> caption_error (Uncaught ''QuotaExceededError'')"
  by (simp add: caption_error_def)

lemma quiet_v1_step:
  assumes "\<not> truthy (getApiKey_v1 env)" and "quiet_v1 s"
  shows "quiet_v1 (step_v1 env e s)"
proof (cases e)
  case (ChooseFile chosen)
  then show ?thesis
    using assms(2)
    by (simp add: step_v1_def handleImageUpload_v1_def quiet_v1_def reading_task_def
        split: option.split)
next
  case (ClickSave stored)
  then show ?thesis
    using assms(2) console_saveEntry [of stored s]
    by (auto simp: step_v1_def quiet_v1_def saveEntry_def Let_def quota_no_caption_error
        split: option.splits)
next
  case (ReaderDone i result)
  then show ?thesis
    using assms
    by (simp add: step_v1_def quiet_v1_def onloadend_v1_def Let_def setTempVisit_def
        list_all_remove_nth split: task_v1.split)
next
  case (GenerateDone i response)
  show ?thesis
  proof (cases "i < length (tasks_v1 s)")
    case True
    then have "reading_task (tasks_v1 s ! i)"
      using assms(2) by (simp add: quiet_v1_def list_all_nth)
    then show ?thesis
      using assms(2) by (simp add: GenerateDone step_v1_def reading_task_def split: task_v1.splits)
  next
    case False
    then show ?thesis
      using assms(2) by (simp add: GenerateDone step_v1_def)
  qed
next
  case (UploadDone i outcome)
  then show ?thesis
    using assms(2) by (simp add: step_v1_def)
next
  case (StationClick station line today)
  then show ?thesis
    using assms(2) by (simp add: step_v1_def common_step_def handleStationClick_def quiet_v1_def)
next
  case CloseModal
  then show ?thesis
    using assms(2) by (simp add: step_v1_def common_step_def quiet_v1_def)
next
  case (ChangeDate v)
  then show ?thesis
    using assms(2) by (simp add: step_v1_def common_step_def setTempVisit_def quiet_v1_def)
next
  case (ChangeCaption v)
  then show ?thesis
    using assms(2) by (simp add: step_v1_def common_step_def setTempVisit_def quiet_v1_def)
next
  case (ChangeHighlights v)
  then show ?thesis
    using assms(2) by (simp add: step_v1_def common_step_def setTempVisit_def quiet_v1_def)
next
  case (ChangeGoodFood v)
  then show ?thesis
    using assms(2) by (simp add: step_v1_def common_step_def setTempVisit_def quiet_v1_def)
next
  case (ClickClear stored)
  then show ?thesis
    using assms(2)
    by (auto simp: step_v1_def common_step_def deleteEntry_def Let_def quiet_v1_def
        quota_no_caption_error split: option.splits)
qed

lemma quiet_v1_run:
  "\<not> truthy (getApiKey_v1 env) \<Longrightarrow> quiet_v1 s \<Longrightarrow> quiet_v1 (run_v1 env es s)"
  unfolding run_v1_def by (induction es arbitrary: s) (simp_all add: quiet_v1_step)

lemma quiet_v1_attachment:
  assumes "\<not> truthy (getApiKey_v1 env)" and "quiet_v1 s" and "attachment_event e"
  shows "map_option caption (tempVisit (step_v1 env e s)) = map_option caption (tempVisit s)
     \<and> console (step_v1 env e s) = console s"
proof (cases e)
  case (ChooseFile chosen)
  then show ?thesis
    by (simp add: step_v1_def handleImageUpload_v1_def split: option.split)
next
  case (ReaderDone i result)
  then show ?thesis
    using assms(1)
    by (simp add: step_v1_def onloadend_v1_def Let_def setTempVisit_def
        split: task_v1.split option.split)
next
  case (UploadDone i outcome)
  then show ?thesis
    by (simp add: step_v1_def)
next
  case (GenerateDone i response)
  show ?thesis
  proof (cases "i < length (tasks_v1 s)")
    case True
    then have "reading_task (tasks_v1 s ! i)"
      using assms(2) by (simp add: quiet_v1_def list_all_nth)
    then show ?thesis
      by (simp add: GenerateDone step_v1_def reading_task_def split: task_v1.splits)
  next
    case False
    then show ?thesis
      by (simp add: GenerateDone step_v1_def)
  qed
qed (use assms(3) in \<open>simp_all add: attachment_event_def\<close>)

lemma upload_reports: "\<not> caption_error (ConsoleError ''Upload failed'')"
  "\<not> caption_error (Alert ''Failed to upload image to cloud. Please try again.'')"
  "\<not> uncaught (ConsoleError ''Upload failed'')"
  "\<not> uncaught (Alert ''Failed to upload image to cloud. Please try again.'')"
  by (simp_all add: caption_error_def uncaught_def)

lemma generateCaption_no_key:
  "\<not> truthy (getApiKey_v2 env) \<Longrightarrow> generateCaption env chosen selected s = s"
  by (simp add: generateCaption_def truthy_def split: option.splits)

lemma quiet_v2_step:
  assumes "\<not> truthy (getApiKey_v2 env)" and "quiet_v2 s"
  shows "quiet_v2 (step_v2 env e s)"
proof (cases e)
  case (ChooseFile chosen)
  then show ?thesis
    using assms(2)
    by (simp add: step_v2_def handleImageUpload_v2_def quiet_v2_def upload_task_def
        split: option.split)
next
  case (ClickSave stored)
  then show ?thesis
    using assms(2)
    by (auto simp: step_v2_def quiet_v2_def saveEntry_def Let_def quota_no_caption_error
        split: option.splits)
next
  case (ReaderDone i result)
  show ?thesis
  proof (cases "i < length (tasks_v2 s)")
    case True
    then have "upload_task (tasks_v2 s ! i)"
      using assms(2) by (simp add: quiet_v2_def list_all_nth)
    then show ?thesis
      using assms(2) True
      by (auto simp: ReaderDone step_v2_def upload_task_def quiet_v2_def onload_v2_def
          setTempVisit_def list_all_remove_nth split: task_v2.splits option.splits)
  next
    case False
    then show ?thesis
      using assms(2) by (simp add: ReaderDone step_v2_def)
  qed
next
  case (UploadDone i outcome)
  then show ?thesis
    using assms
    by (auto simp: step_v2_def quiet_v2_def uploaded_v2_def generateCaption_no_key
        setTempVisit_def list_all_remove_nth upload_reports split: task_v2.splits promise.splits)
next
  case (GenerateDone i response)
  show ?thesis
  proof (cases "i < length (tasks_v2 s)")
    case True
    then have "upload_task (tasks_v2 s ! i)"
      using assms(2) by (simp add: quiet_v2_def list_all_nth)
    then show ?thesis
      using assms(2) by (simp add: GenerateDone step_v2_def upload_task_def split: task_v2.splits)
  next
    case False
    then show ?thesis
      using assms(2) by (simp add: GenerateDone step_v2_def)
  qed
next
  case (StationClick station line today)
  then show ?thesis
    using assms(2) by (simp add: step_v2_def common_step_def handleStationClick_def quiet_v2_def)
next
  case CloseModal
  then show ?thesis
    using assms(2) by (simp add: step_v2_def common_step_def quiet_v2_def)
next
  case (ChangeDate v)
  then show ?thesis
    using assms(2) by (simp add: step_v2_def common_step_def setTempVisit_def quiet_v2_def)
next
  case (ChangeCaption v)
  then show ?thesis
    using assms(2) by (simp add: step_v2_def common_step_def setTempVisit_def quiet_v2_def)
next
  case (ChangeHighlights v)
  then show ?thesis
    using assms(2) by (simp add: step_v2_def common_step_def setTempVisit_def quiet_v2_def)
next
  case (ChangeGoodFood v)
  then show ?thesis
    using assms(2) by (simp add: step_v2_def common_step_def setTempVisit_def quiet_v2_def)
next
  case (ClickClear stored)
  then show ?thesis
    using assms(2)
    by (auto simp: step_v2_def common_step_def deleteEntry_def Let_def quiet_v2_def
        quota_no_caption_error split: option.splits)
qed

lemma quiet_v2_run:
  "\<not> truthy (getApiKey_v2 env) \<Longrightarrow> quiet_v2 s \<Longrightarrow> quiet_v2 (run_v2 env es s)"
  unfolding run_v2_def by (induction es arbitrary: s) (simp_all add: quiet_v2_step)

lemma quiet_v2_attachment:
  assumes "\<not> truthy (getApiKey_v2 env)" and "quiet_v2 s" and "attachment_event e"
  shows "map_option caption (tempVisit (step_v2 env e s)) = map_option caption (tempVisit s)
     \<and> filter uncaught (console (step_v2 env e s)) = filter uncaught (console s)"
proof (cases e)
  case (ChooseFile chosen)
  then show ?thesis
    by (simp add: step_v2_def handleImageUpload_v2_def split: option.split)
next
  case (ReaderDone i result)
  show ?thesis
  proof (cases "i < length (tasks_v2 s)")
    case True
    then have "upload_task (tasks_v2 s ! i)"
      using assms(2) by (simp add: quiet_v2_def list_all_nth)
    then show ?thesis
      by (simp add: ReaderDone step_v2_def upload_task_def onload_v2_def setTempVisit_def
          split: task_v2.splits option.splits)
  next
    case False
    then show ?thesis
      by (simp add: ReaderDone step_v2_def)
  qed
next
  case (UploadDone i outcome)
  then show ?thesis
    using assms(1)
    by (simp add: step_v2_def uploaded_v2_def generateCaption_no_key setTempVisit_def
        upload_reports split: task_v2.split promise.split option.split)
next
  case (GenerateDone i response)
  show ?thesis
  proof (cases "i < length (tasks_v2 s)")
    case True
    then have "upload_task (tasks_v2 s ! i)"
      using assms(2) by (simp add: quiet_v2_def list_all_nth)
    then show ?thesis
      by (simp add: GenerateDone step_v2_def upload_task_def split: task_v2.splits)
  next
    case False
    then show ?thesis
      by (simp add: GenerateDone step_v2_def)
  qed
qed (use assms(3) in \<open>simp_all add: attachment_event_def\<close>)

text \<open>
  Claim C9. Without an API key, in every state either revision reaches after loading the saved
  visits, choosing an image and the end of any task leave the caption of the draft as it is
  and let no exception escape; no caption request is started, the caption indicator stays
  off and the caption step reports nothing. (In revision 2 a rejected upload is still caught
  and reported.)
\<close>

theorem C9_no_api_key_no_caption:
  assumes "\<not> truthy (getApiKey_v1 env1)" and "\<not> truthy (getApiKey_v2 env2)"
    and "loadVisits (initial_v1 blob1) = Inr m1" and "loadVisits (initial_v2 blob2) = Inr m2"
    and "attachment_event e"
  shows "map_option caption (tempVisit (step_v1 env1 e (run_v1 env1 es1 m1)))
       = map_option caption (tempVisit (run_v1 env1 es1 m1))
     \<and> console (step_v1 env1 e (run_v1 env1 es1 m1)) = console (run_v1 env1 es1 m1)
     \<and> quiet_v1 (run_v1 env1 es1 m1)
     \<and> map_option caption (tempVisit (step_v2 env2 e (run_v2 env2 es2 m2)))
       = map_option caption (tempVisit (run_v2 env2 es2 m2))
     \<and> filter uncaught (console (step_v2 env2 e (run_v2 env2 es2 m2)))
       = filter uncaught (console (run_v2 env2 es2 m2))
     \<and> quiet_v2 (run_v2 env2 es2 m2)"
proof -
  have "quiet_v1 m1" "quiet_v2 m2"
    using assms(3,4) by (simp_all add: mounted_v1 mounted_v2)
  then have q1: "quiet_v1 (run_v1 env1 es1 m1)" and q2: "quiet_v2 (run_v2 env2 es2 m2)"
    using assms(1,2) by (simp_all add: quiet_v1_run quiet_v2_run)
  show ?thesis
    using quiet_v1_attachment [OF assms(1) q1 assms(5)] quiet_v2_attachment [OF assms(2) q2 assms(5)]
      q1 q2
    by simp
qed

theorem C9_no_api_key_witness:
  "\<not> truthy (getApiKey_v1 without_key) \<and> \<not> truthy (getApiKey_v2 without_key)
   \<and> tempVisit (step_v1 without_key (ReaderDone 0 (Some (js ''data:image/png;base64,iVBORw'')))
        (run_v1 without_key attach_without_upload (initial_v1 None)))
       = Some (draft_EW18\<lparr>imageData := Some (js ''data:image/png;base64,iVBORw''),
                           caption := Some (js ''mine'')\<rparr>)
   \<and> map_option caption (tempVisit (step_v2 without_key (ReaderDone 0 (Some (js ''data:image/png;base64,iVBORw'')))
        (run_v2 without_key attach_without_upload (initial_v2 None))))
       = Some (Some (js ''mine''))
   \<and> isLoadingCaption (step_v1 without_key (ReaderDone 0 (Some (js ''data:image/png;base64,iVBORw'')))
        (run_v1 without_key attach_without_upload (initial_v1 None))) = False"
proof -
  have k1: "\<not> truthy (getApiKey_v1 without_key)" and k2: "\<not> truthy (getApiKey_v2 without_key)"
    by (simp_all add: truthy_def getApiKey_v1_def getApiKey_v2_def without_key_def)
  have e: "attachment_event (ReaderDone 0 (Some (js ''data:image/png;base64,iVBORw'')))"
    by (simp add: attachment_event_def)
  have s1: "run_v1 without_key attach_without_upload (initial_v1 None) =
     \<lparr>visitMap = [], selectedStationData = Some (EW18, EWL), isModalOpen = True,
      tempVisit = Some (draft_EW18\<lparr>caption := Some (js ''mine'')\<rparr>),
      localStorage = None, console = [], isLoadingCaption = False,
      tasks_v1 = [Reading_v1 photo (Some (EW18, EWL))]\<rparr>"
    by (simp add: run_simps attach_without_upload_def draft_EW18_def EW18_def)
  have s2: "map_option caption (tempVisit (run_v2 without_key attach_without_upload (initial_v2 None)))
     = Some (Some (js ''mine''))"
    by (simp add: run_simps attach_without_upload_def)
  have after: "step_v1 without_key (ReaderDone 0 (Some (js ''data:image/png;base64,iVBORw'')))
        (run_v1 without_key attach_without_upload (initial_v1 None)) =
     \<lparr>visitMap = [], selectedStationData = Some (EW18, EWL), isModalOpen = True,
      tempVisit = Some (draft_EW18\<lparr>imageData := Some (js ''data:image/png;base64,iVBORw''),
                                  caption := Some (js ''mine'')\<rparr>),
      localStorage = None, console = [], isLoadingCaption = False, tasks_v1 = []\<rparr>"
    unfolding s1 using k1
    by (simp add: step_v1_def remove_nth_def onloadend_v1_def Let_def setTempVisit_def draft_EW18_def)
  from C9_no_api_key_no_caption [OF k1 k2 loadVisits_absent e, of attach_without_upload attach_without_upload]
  have "map_option caption (tempVisit (step_v2 without_key (ReaderDone 0 (Some (js ''data:image/png;base64,iVBORw'')))
        (run_v2 without_key attach_without_upload (initial_v2 None))))
       = Some (Some (js ''mine''))"
    by (simp only: s2)
  then show ?thesis
    using k1 k2 by (simp add: after)
qed

end
